theory Spec2Isabelle
  imports Complex_Main "HOL-Library.Sublist"
begin

section \<open>Python values used by pixelate.py\<close>

text \<open>
  Exceptions are values: every function that can raise returns \<open>error + 'a\<close>, with
  \<open>Inl\<close> for the exception that leaves the function.
\<close>

datatype error =
    FileNotFoundError
  | ValueError
  | ZeroDivisionError
  | OverflowError
  | UnidentifiedImageError
  | UnicodeDecodeError
  | MemoryError
  | CalledProcessError

text \<open>A colour is a Python tuple of three ints; \<open>int(.., 16)\<close> may also yield a negative one.\<close>

type_synonym rgb = "int \<times> int \<times> int"

subsection \<open>Strings\<close>

text \<open>
  A text is a list of characters, one \<open>char\<close> per code point below 256.
  \<open>isspace\<close> lists the code points below 256 that Python's \<open>str.isspace\<close> accepts, which
  are the ones \<open>str.strip()\<close> removes. \<open>int()\<close> skips fewer: not the four separators
  \<open>0x1C\<close> to \<open>0x1F\<close>.
\<close>

definition isspace :: "char \<Rightarrow> bool" where
  "isspace c =
     (let n = (of_char c :: nat)
      in (9 \<le> n \<and> n \<le> 13) \<or> (28 \<le> n \<and> n \<le> 32) \<or> n = 133 \<or> n = 160)"

definition strip :: "string \<Rightarrow> string" where
  "strip s = rev (dropWhile isspace (rev (dropWhile isspace s)))"

definition int_space :: "char \<Rightarrow> bool" where
  "int_space c =
     (let n = (of_char c :: nat)
      in (9 \<le> n \<and> n \<le> 13) \<or> n = 32 \<or> n = 133 \<or> n = 160)"

definition int_strip :: "string \<Rightarrow> string" where
  "int_strip s = rev (dropWhile int_space (rev (dropWhile int_space s)))"

definition startswith_hash :: "string \<Rightarrow> bool" where
  "startswith_hash s = (case s of [] \<Rightarrow> False | c # _ \<Rightarrow> c = CHR ''#'')"

definition lstrip_hash :: "string \<Rightarrow> string" where
  "lstrip_hash s = dropWhile (\<lambda>c. c = CHR ''#'') s"

text \<open>The slice \<open>line[i:i+2]\<close>: it is shorter than two characters near the end of the line.\<close>

definition slice2 :: "string \<Rightarrow> nat \<Rightarrow> string" where
  "slice2 line i = take 2 (drop i line)"

subsection \<open>\<open>int(s, 16)\<close>\<close>

definition hex_value :: "char \<Rightarrow> int option" where
  "hex_value c =
     (let n = (of_char c :: nat)
      in if 48 \<le> n \<and> n \<le> 57 then Some (int n - 48)
         else if 97 \<le> n \<and> n \<le> 102 then Some (int n - 87)
         else if 65 \<le> n \<and> n \<le> 70 then Some (int n - 55)
         else None)"

text \<open>
  The digits of the literal: hex digits, with single underscores allowed between digits
  (not doubled, not at the end). The caller has excluded an empty literal and a leading
  underscore.
\<close>

fun digits16 :: "int \<Rightarrow> string \<Rightarrow> int option" where
  "digits16 acc [] = Some acc"
| "digits16 acc (c # cs) =
     (if c = CHR ''_''
      then (case cs of
              [] \<Rightarrow> None
            | d # _ \<Rightarrow> if d = CHR ''_'' then None else digits16 acc cs)
      else (case hex_value c of
              None \<Rightarrow> None
            | Some v \<Rightarrow> digits16 (16 * acc + v) cs))"

definition skip_sign :: "string \<Rightarrow> bool \<times> string" where
  "skip_sign s =
     (case s of
        [] \<Rightarrow> (False, s)
      | c # cs \<Rightarrow> if c = CHR ''+'' then (False, cs)
                 else if c = CHR ''-'' then (True, cs)
                 else (False, s))"

text \<open>For base 16 a prefix \<open>0x\<close> or \<open>0X\<close> is skipped, and one underscore after it.\<close>

definition skip_prefix16 :: "string \<Rightarrow> string" where
  "skip_prefix16 s =
     (case s of
        a # b # rest \<Rightarrow>
          if a = CHR ''0'' \<and> (b = CHR ''x'' \<or> b = CHR ''X'')
          then (case rest of
                  [] \<Rightarrow> rest
                | u # rest' \<Rightarrow> if u = CHR ''_'' then rest' else rest)
          else s
      | _ \<Rightarrow> s)"

definition py_int16 :: "string \<Rightarrow> error + int" where
  "py_int16 s =
     (let (negative, t) = skip_sign (int_strip s);
          body = skip_prefix16 t
      in case body of
           [] \<Rightarrow> Inl ValueError
         | c # _ \<Rightarrow>
             if c = CHR ''_'' then Inl ValueError
             else (case digits16 0 body of
                     None \<Rightarrow> Inl ValueError
                   | Some v \<Rightarrow> Inr (if negative then - v else v)))"

subsection \<open>Text files read line by line\<close>

text \<open>
  \<open>open(path, 'r')\<close> reads with universal newlines: \<open>\r\n\<close> and a lone \<open>\r\<close> arrive as
  \<open>\n\<close>. Iterating the file yields the lines with their terminator; an empty file yields
  no line.
\<close>

fun universal_newlines :: "string \<Rightarrow> string" where
  "universal_newlines [] = []"
| "universal_newlines (c # cs) =
     (if c = CHR 0x0D
      then (case cs of
              [] \<Rightarrow> [CHR 0x0A]
            | d # ds \<Rightarrow> if d = CHR 0x0A then CHR 0x0A # universal_newlines ds
                       else CHR 0x0A # universal_newlines cs)
      else c # universal_newlines cs)"

fun split_lines :: "string \<Rightarrow> string list" where
  "split_lines [] = []"
| "split_lines (c # cs) =
     (if c = CHR 0x0A then [c] # split_lines cs
      else (case split_lines cs of
              [] \<Rightarrow> [c] # []
            | l # ls \<Rightarrow> (c # l) # ls))"

definition file_lines :: "string \<Rightarrow> string list" where
  "file_lines t = split_lines (universal_newlines t)"

subsection \<open>Double precision\<close>

text \<open>
  A Python float is an IEEE 754 double. A finite double is a rational, and every operation
  returns the exact result rounded to 53 significant bits, ties to even: \<open>fl\<close>. The
  exponent range is not modelled: image sizes and target sizes are C ints, so the quotients
  and products of this program stay in the normal range, and a size beyond a C int is
  rejected by the resize with the \<open>OverflowError\<close> that a float out of range raises too.
\<close>

function bitlen :: "int \<Rightarrow> int" where
  "bitlen n = (if n \<le> 0 then 0 else 1 + bitlen (n div 2))"
  by pat_completeness auto
termination
  by (relation "measure nat") auto

declare bitlen.simps [simp del]

definition round_half_even :: "rat \<Rightarrow> int" where
  "round_half_even y =
     (let f = \<lfloor>y\<rfloor>; r = y - of_int f
      in if r < 1 / 2 then f
         else if 1 / 2 < r then f + 1
         else if even f then f else f + 1)"

text \<open>The binary exponent of a positive rational \<open>x\<close>: \<open>2 ^ ilog2 x \<le> x < 2 ^ (ilog2 x + 1)\<close>.\<close>

definition ilog2 :: "rat \<Rightarrow> int" where
  "ilog2 x =
     (let (p, q) = quotient_of x;
          d = bitlen p - bitlen q
      in if power_int 2 d \<le> x then d else d - 1)"

definition fl :: "rat \<Rightarrow> rat" where
  "fl x =
     (if x = 0 then 0
      else let e = ilog2 \<bar>x\<bar> - 52;
               m = round_half_even (\<bar>x\<bar> / power_int 2 e)
           in sgn x * of_int m * power_int 2 e)"

text \<open>\<open>a / b\<close> on two ints (true division, correctly rounded).\<close>

definition int_truediv :: "int \<Rightarrow> int \<Rightarrow> error + rat" where
  "int_truediv a b = (if b = 0 then Inl ZeroDivisionError else Inr (fl (of_int a / of_int b)))"

text \<open>\<open>n * x\<close> with an int \<open>n\<close> and a float \<open>x\<close>: the int is converted first.\<close>

definition int_times_float :: "int \<Rightarrow> rat \<Rightarrow> rat" where
  "int_times_float n x = fl (fl (of_int n) * x)"

text \<open>\<open>int(x)\<close> on a float truncates toward zero.\<close>

definition py_int_of_float :: "rat \<Rightarrow> int" where
  "py_int_of_float x = (if x < 0 then - \<lfloor>- x\<rfloor> else \<lfloor>x\<rfloor>)"

subsection \<open>Formatting the frame index\<close>

definition digit_char :: "nat \<Rightarrow> char" where
  "digit_char d = char_of (48 + d)"

fun decimal :: "nat \<Rightarrow> string" where
  "decimal n = (if n < 10 then [digit_char n] else decimal (n div 10) @ [digit_char (n mod 10)])"

declare decimal.simps [simp del]

text \<open>The format \<open>{frame_count:05d}\<close>: decimal digits, padded with zeros to five at least.\<close>

definition format_05d :: "nat \<Rightarrow> string" where
  "format_05d n = replicate (5 - length (decimal n)) (CHR ''0'') @ decimal n"

text \<open>\<open>os.path.join(a, b)\<close> for two components.\<close>

definition path_join :: "string \<Rightarrow> string \<Rightarrow> string" where
  "path_join a b =
     (if b \<noteq> [] \<and> hd b = CHR ''/'' then b
      else if a = [] \<or> last a = CHR ''/'' then a @ b
      else a @ ''/'' @ b)"

section \<open>Images and the imaging library\<close>

text \<open>
  A decoded image in mode RGB: its size and the colour at each coordinate. Only the
  coordinates inside the size are part of the picture.
\<close>

record image =
  iwidth :: nat
  iheight :: nat
  pixel :: "nat \<Rightarrow> nat \<Rightarrow> rgb"

definition image_size :: "image \<Rightarrow> nat \<times> nat" where
  "image_size img = (iwidth img, iheight img)"

definition map_pixels :: "(rgb \<Rightarrow> rgb) \<Rightarrow> image \<Rightarrow> image" where
  "map_pixels f img = img\<lparr>pixel := (\<lambda>x y. f (pixel img x y))\<rparr>"

text \<open>
  The operations of the imaging library whose results depend on its colour arithmetic
  are parameters of the model: the program only chooses which one to call, with which
  arguments. The two quantizers can raise (a palette that does not fit, a colour count
  out of range). So are the two answers of the machine the library runs on:
  \<open>allocate_error\<close> is the exception, if any, raised when a resize asks for the storage of
  an image of a given width and height (a \<open>MemoryError\<close>), and \<open>save_error\<close> the exception,
  if any, raised when \<open>image.save\<close> opens a given path for writing.
\<close>

record imaging =
  enhance_brightness :: "rat \<Rightarrow> image \<Rightarrow> image"
  enhance_contrast :: "rat \<Rightarrow> image \<Rightarrow> image"
  quantize_palette :: "rgb list \<Rightarrow> image \<Rightarrow> error + image"
  quantize_mediancut :: "int \<Rightarrow> image \<Rightarrow> error + image"
  allocate_error :: "nat \<Rightarrow> nat \<Rightarrow> error option"
  save_error :: "string \<Rightarrow> error option"

text \<open>
  \<open>Image.resize(size, resample=Image.NEAREST)\<close>: the result has the requested size, and
  each of its columns is a column of the source, each of its rows a row of the source. The
  library finds the source column by stepping a coordinate in double precision: it starts
  at half the scale \<open>n_in / n_out\<close>, adds the scale for each output column, and reads the
  column at the integer part of the coordinate; the same for the rows. (The library passes
  the source size through a single-precision float, which is exact below \<open>2 ^ 24\<close>; larger
  sources are not modelled apart.)
\<close>

fun source_coordinate :: "rat \<Rightarrow> nat \<Rightarrow> rat" where
  "source_coordinate a 0 = fl (0 + fl (a * (1 / 2)))"
| "source_coordinate a (Suc x) = fl (source_coordinate a x + a)"

definition nearest_index :: "nat \<Rightarrow> nat \<Rightarrow> nat \<Rightarrow> nat" where
  "nearest_index n_in n_out x =
     nat \<lfloor>source_coordinate (fl (of_nat n_in / of_nat n_out)) x\<rfloor>"

text \<open>
  The library takes the size as two C ints, refuses a size below 1, and then asks for the
  storage of the result.
\<close>

definition c_int :: "int \<Rightarrow> bool" where
  "c_int n = (- (2 ^ 31) \<le> n \<and> n < 2 ^ 31)"

definition resize_nearest :: "imaging \<Rightarrow> int \<times> int \<Rightarrow> image \<Rightarrow> error + image" where
  "resize_nearest L wh img =
     (let (xsize, ysize) = wh
      in if \<not> c_int xsize \<or> \<not> c_int ysize then Inl OverflowError
         else if xsize < 1 \<or> ysize < 1 then Inl ValueError
         else (case allocate_error L (nat xsize) (nat ysize) of
                 Some e \<Rightarrow> Inl e
               | None \<Rightarrow>
                   Inr \<lparr>iwidth = nat xsize, iheight = nat ysize,
                        pixel = (\<lambda>x y. pixel img (nearest_index (iwidth img) (nat xsize) x)
                                                 (nearest_index (iheight img) (nat ysize) y))\<rparr>))"

section \<open>The world the program runs in\<close>

datatype content =
    Text string
  | Picture image
  | Video rat "image list"

datatype message =
    PaletteNotFound string
  | DetectedFps rat rat

record ffmpeg_command =
  framerate :: rat
  input_pattern :: string
  vcodec :: string
  pix_fmt :: string
  out_path :: string

text \<open>
  \<open>files\<close>: the file system; a video file holds its native frame rate and its frames.
  \<open>stdout\<close>: what was printed. \<open>temp_dirs\<close>: the temporary directories that exist.
  \<open>open_captures\<close>: one entry per video decoder handle that was opened and has not been
  released by a call of \<open>release()\<close>. \<open>subprocesses\<close>: the encoder commands that were run.
\<close>

record world =
  files :: "string \<rightharpoonup> content"
  stdout :: "message list"
  temp_dirs :: "string list"
  open_captures :: "string list"
  subprocesses :: "ffmpeg_command list"

section \<open>load_palette_from_file\<close>

text \<open>The generator \<open>tuple(int(line[i:i+2], 16) for i in (0, 2, 4))\<close>.\<close>

definition parse_rgb :: "string \<Rightarrow> error + rgb" where
  "parse_rgb line =
     (case py_int16 (slice2 line 0) of
        Inl e \<Rightarrow> Inl e
      | Inr r \<Rightarrow>
          (case py_int16 (slice2 line 2) of
             Inl e \<Rightarrow> Inl e
           | Inr g \<Rightarrow>
               (case py_int16 (slice2 line 4) of
                  Inl e \<Rightarrow> Inl e
                | Inr b \<Rightarrow> Inr (r, g, b))))"

definition clean_line :: "string \<Rightarrow> string" where
  "clean_line l =
     (let line = strip l
      in if startswith_hash line then lstrip_hash line else line)"

text \<open>The loop over the lines, with the palette built so far.\<close>

fun parse_lines :: "string list \<Rightarrow> rgb list \<Rightarrow> error + rgb list" where
  "parse_lines [] palette = Inr palette"
| "parse_lines (l # ls) palette =
     (case parse_rgb (clean_line l) of
        Inl e \<Rightarrow> Inl e
      | Inr rgb \<Rightarrow> parse_lines ls (palette @ [rgb]))"

text \<open>
  Only \<open>FileNotFoundError\<close> is caught: it prints and returns \<open>None\<close>, here \<open>Inr None\<close>.
  A path that holds no text does not decode.
\<close>

definition load_palette_from_file :: "world \<Rightarrow> string \<Rightarrow> (error + rgb list option) \<times> world" where
  "load_palette_from_file w palette_file_path =
     (case files w palette_file_path of
        None \<Rightarrow> (Inr None, w\<lparr>stdout := stdout w @ [PaletteNotFound palette_file_path]\<rparr>)
      | Some (Text t) \<Rightarrow>
          (case parse_lines (file_lines t) [] of
             Inl e \<Rightarrow> (Inl e, w)
           | Inr palette \<Rightarrow> (Inr (Some palette), w))
      | Some _ \<Rightarrow> (Inl UnicodeDecodeError, w))"

section \<open>pixelate_image\<close>

definition open_rgb :: "world \<Rightarrow> string \<Rightarrow> error + image" where
  "open_rgb w input_path =
     (case files w input_path of
        None \<Rightarrow> Inl FileNotFoundError
      | Some (Picture img) \<Rightarrow> Inr img
      | Some _ \<Rightarrow> Inl UnidentifiedImageError)"

text \<open>Lines 48 to 56: each enhancement is applied only when its factor differs from 1.0.\<close>

definition adjust :: "imaging \<Rightarrow> rat \<Rightarrow> rat \<Rightarrow> image \<Rightarrow> image" where
  "adjust L brightness_factor contrast_factor img =
     (let img1 = (if brightness_factor \<noteq> 1
                  then enhance_brightness L brightness_factor img else img)
      in if contrast_factor \<noteq> 1
         then enhance_contrast L contrast_factor img1 else img1)"

text \<open>Lines 59 to 63: the aspect ratio and the target height, in floating point.\<close>

definition target_height :: "int \<Rightarrow> nat \<Rightarrow> nat \<Rightarrow> error + int" where
  "target_height target_width original_width original_height =
     (case int_truediv (int original_height) (int original_width) of
        Inl e \<Rightarrow> Inl e
      | Inr aspect_ratio \<Rightarrow> Inr (py_int_of_float (int_times_float target_width aspect_ratio)))"

text \<open>Lines 69 to 82. A path is true unless it is \<open>None\<close> or empty; a palette unless it is
  \<open>None\<close> or the empty list.\<close>

definition quantize :: "imaging \<Rightarrow> world \<Rightarrow> int \<Rightarrow> string option \<Rightarrow> image \<Rightarrow> (error + image) \<times> world" where
  "quantize L w palette_size palette_file img =
     (case palette_file of
        None \<Rightarrow> (quantize_mediancut L palette_size img, w)
      | Some path \<Rightarrow>
          if path = [] then (quantize_mediancut L palette_size img, w)
          else (case load_palette_from_file w path of
                  (Inl e, w') \<Rightarrow> (Inl e, w')
                | (Inr None, w') \<Rightarrow> (quantize_mediancut L palette_size img, w')
                | (Inr (Some palette), w') \<Rightarrow>
                    if palette \<noteq> [] then (quantize_palette L palette img, w')
                    else (quantize_mediancut L palette_size img, w')))"

definition pixelate_image ::
  "imaging \<Rightarrow> world \<Rightarrow> string \<Rightarrow> string \<Rightarrow> int \<Rightarrow> int \<Rightarrow> int \<Rightarrow> rat \<Rightarrow> rat \<Rightarrow> string option
     \<Rightarrow> (error + unit) \<times> world" where
  "pixelate_image L w input_path output_path target_width palette_size pixel_scale
       brightness_factor contrast_factor palette_file =
     (case open_rgb w input_path of
        Inl e \<Rightarrow> (Inl e, w)
      | Inr image0 \<Rightarrow>
     (let image1 = adjust L brightness_factor contrast_factor image0
      in case target_height target_width (iwidth image1) (iheight image1) of
        Inl e \<Rightarrow> (Inl e, w)
      | Inr th \<Rightarrow>
     (case resize_nearest L (target_width, th) image1 of
        Inl e \<Rightarrow> (Inl e, w)
      | Inr image2 \<Rightarrow>
     (case quantize L w palette_size palette_file image2 of
        (Inl e, w') \<Rightarrow> (Inl e, w')
      | (Inr image3, w') \<Rightarrow>
     (case resize_nearest L (target_width * pixel_scale, th * pixel_scale) image3 of
        Inl e \<Rightarrow> (Inl e, w')
      | Inr image4 \<Rightarrow>
     (case save_error L output_path of
        Some e \<Rightarrow> (Inl e, w')
      | None \<Rightarrow>
          (Inr (), w'\<lparr>files := (files w')(output_path \<mapsto> Picture image4)\<rparr>)))))))"

section \<open>pixelate_video\<close>

text \<open>
  \<open>cv2.VideoCapture(path)\<close> on anything but a video gives a handle that reports the frame
  rate 0.0 and no frame. \<open>find_framerate\<close> opens a handle and never releases it.
\<close>

definition native_fps :: "world \<Rightarrow> string \<Rightarrow> rat" where
  "native_fps w path = (case files w path of Some (Video r _) \<Rightarrow> r | _ \<Rightarrow> 0)"

definition swap_channels :: "image \<Rightarrow> image" where
  "swap_channels img = map_pixels (\<lambda>(a, b, c). (c, b, a)) img"

text \<open>The decoder returns each frame as an array in the channel order blue, green, red.\<close>

definition decoded_frames :: "world \<Rightarrow> string \<Rightarrow> image list" where
  "decoded_frames w path =
     (case files w path of Some (Video _ frames) \<Rightarrow> map swap_channels frames | _ \<Rightarrow> [])"

definition find_framerate :: "world \<Rightarrow> string \<Rightarrow> rat \<times> world" where
  "find_framerate w input_path =
     (native_fps w input_path, w\<lparr>open_captures := open_captures w @ [input_path]\<rparr>)"

text \<open>\<open>cv2.imwrite\<close> takes the array it is given to be in the order blue, green, red.\<close>

definition imwrite :: "world \<Rightarrow> string \<Rightarrow> image \<Rightarrow> world" where
  "imwrite w path array = w\<lparr>files := (files w)(path \<mapsto> Picture (swap_channels array))\<rparr>"

definition temp_image_path :: "string \<Rightarrow> nat \<Rightarrow> string" where
  "temp_image_path temp_dir frame_count =
     path_join temp_dir (''frame_'' @ format_05d frame_count @ ''.png'')"

definition output_image_path :: "string \<Rightarrow> nat \<Rightarrow> string" where
  "output_image_path temp_dir frame_count =
     path_join temp_dir (''frame_'' @ format_05d frame_count @ ''_pixelated.png'')"

text \<open>
  The \<open>while True\<close> loop, over the frames the decoder still holds: \<open>video.read()\<close> returns
  the next one, and \<open>ret = False\<close> when none is left.
\<close>

fun frame_loop ::
  "imaging \<Rightarrow> string \<Rightarrow> int \<Rightarrow> int \<Rightarrow> int \<Rightarrow> rat \<Rightarrow> rat \<Rightarrow> string option
     \<Rightarrow> image list \<Rightarrow> nat \<Rightarrow> world \<Rightarrow> (error + nat) \<times> world" where
  "frame_loop L temp_dir target_width palette_size pixel_scale brightness_factor
       contrast_factor palette_file [] frame_count w = (Inr frame_count, w)"
| "frame_loop L temp_dir target_width palette_size pixel_scale brightness_factor
       contrast_factor palette_file (frame # rest) frame_count w =
     (let frame_rgb = swap_channels frame;
          w1 = imwrite w (temp_image_path temp_dir frame_count) frame_rgb
      in case pixelate_image L w1 (temp_image_path temp_dir frame_count)
                (output_image_path temp_dir frame_count) target_width palette_size
                pixel_scale brightness_factor contrast_factor palette_file of
           (Inl e, w2) \<Rightarrow> (Inl e, w2)
         | (Inr _, w2) \<Rightarrow>
             frame_loop L temp_dir target_width palette_size pixel_scale brightness_factor
               contrast_factor palette_file rest (frame_count + 1) w2)"

text \<open>Leaving the \<open>with TemporaryDirectory()\<close> block removes the directory and all in it.\<close>

definition dir_prefix :: "string \<Rightarrow> string" where
  "dir_prefix d = (if d = [] \<or> last d = CHR ''/'' then d else d @ ''/'')"

definition inside :: "string \<Rightarrow> string \<Rightarrow> bool" where
  "inside temp_dir path = prefix (dir_prefix temp_dir) path"

definition cleanup :: "string \<Rightarrow> world \<Rightarrow> world" where
  "cleanup temp_dir w =
     w\<lparr>files := (\<lambda>p. if inside temp_dir p then None else files w p),
       temp_dirs := removeAll temp_dir (temp_dirs w)\<rparr>"

text \<open>\<open>video.release()\<close> closes the handle of the loop, the one opened last.\<close>

definition release :: "string \<Rightarrow> world \<Rightarrow> world" where
  "release input_path w = w\<lparr>open_captures := butlast (open_captures w)\<rparr>"

text \<open>
  The encoder is an external process: \<open>encoder\<close> is what it does to the file system, or
  the error of \<open>subprocess.run(check=True)\<close>. The temporary directory's name is chosen
  by the operating system: \<open>temp_dir\<close>.
\<close>

definition pixelate_video ::
  "imaging \<Rightarrow> (ffmpeg_command \<Rightarrow> (string \<rightharpoonup> content) \<Rightarrow> error + (string \<rightharpoonup> content)) \<Rightarrow> string
     \<Rightarrow> world \<Rightarrow> string \<Rightarrow> string \<Rightarrow> int \<Rightarrow> int \<Rightarrow> int \<Rightarrow> rat \<Rightarrow> rat \<Rightarrow> string option \<Rightarrow> rat
     \<Rightarrow> (error + unit) \<times> world" where
  "pixelate_video L encoder temp_dir w input_path output_path target_width palette_size
       pixel_scale brightness_factor contrast_factor palette_file fps =
     (let (detected_framerate, w1) = find_framerate w input_path;
          fps = (if fps > detected_framerate then detected_framerate else fps);
          w2 = w1\<lparr>stdout := stdout w1 @ [DetectedFps detected_framerate fps]\<rparr>;
          w3 = w2\<lparr>temp_dirs := temp_dirs w2 @ [temp_dir]\<rparr>;
          w4 = w3\<lparr>open_captures := open_captures w3 @ [input_path]\<rparr>
      in case frame_loop L temp_dir target_width palette_size pixel_scale brightness_factor
                contrast_factor palette_file (decoded_frames w4 input_path) 0 w4 of
           (Inl e, w5) \<Rightarrow> (Inl e, cleanup temp_dir w5)
         | (Inr frame_count, w5) \<Rightarrow>
             (let w6 = release input_path w5;
                  ffmpeg_command = \<lparr>framerate = fps,
                                    input_pattern = path_join temp_dir ''frame_%05d_pixelated.png'',
                                    vcodec = ''libx264'',
                                    pix_fmt = ''yuv420p'',
                                    out_path = output_path\<rparr>;
                  w7 = w6\<lparr>subprocesses := subprocesses w6 @ [ffmpeg_command]\<rparr>
              in case encoder ffmpeg_command (files w7) of
                   Inl e \<Rightarrow> (Inl e, cleanup temp_dir w7)
                 | Inr files' \<Rightarrow> (Inr (), cleanup temp_dir (w7\<lparr>files := files'\<rparr>))))"

section \<open>Observations and sample inputs\<close>

text \<open>Reading a frame index back from its digits.\<close>

definition is_digit :: "char \<Rightarrow> bool" where
  "is_digit c = (48 \<le> (of_char c :: nat) \<and> (of_char c :: nat) \<le> 57)"

definition decimal_value :: "string \<Rightarrow> nat" where
  "decimal_value s = foldl (\<lambda>a c. 10 * a + (of_char c - 48)) 0 s"

text \<open>The world in which the frame loop of \<open>pixelate_video\<close> starts.\<close>

definition at_loop_entry :: "world \<Rightarrow> string \<Rightarrow> string \<Rightarrow> rat \<Rightarrow> world" where
  "at_loop_entry w input_path temp_dir fps =
     w\<lparr>stdout := stdout w @ [DetectedFps (native_fps w input_path) (min fps (native_fps w input_path))],
       temp_dirs := temp_dirs w @ [temp_dir],
       open_captures := open_captures w @ [input_path, input_path]\<rparr>"

text \<open>The encoder commands run between two states of the world.\<close>

definition encoder_runs :: "world \<Rightarrow> world \<Rightarrow> ffmpeg_command list" where
  "encoder_runs w w' = drop (length (subprocesses w)) (subprocesses w')"

definition picture_at :: "world \<Rightarrow> string \<Rightarrow> image option" where
  "picture_at w path = (case files w path of Some (Picture img) \<Rightarrow> Some img | _ \<Rightarrow> None)"

text \<open>
  One instance of the library interface, for running the model on concrete inputs.
  Brightness scales each channel and contrast scales around the midpoint. The palette
  quantizer looks a colour up as the library's cache does: it clears the two low bits of
  each channel and takes the first palette entry at the least squared distance from that
  corner. The automatic quantizer keeps an image as it is (what it does when the image has
  no more colours than asked for). There is room for \<open>2 ^ 28\<close> pixels, and every path but
  the empty one can be written.
\<close>

definition clamp255 :: "int \<Rightarrow> int" where
  "clamp255 v = max 0 (min 255 v)"

definition scale_colour :: "rat \<Rightarrow> rgb \<Rightarrow> rgb" where
  "scale_colour f c =
     (case c of (r, g, b) \<Rightarrow>
        (clamp255 \<lfloor>f * of_int r\<rfloor>, clamp255 \<lfloor>f * of_int g\<rfloor>, clamp255 \<lfloor>f * of_int b\<rfloor>))"

definition contrast_colour :: "rat \<Rightarrow> rgb \<Rightarrow> rgb" where
  "contrast_colour f c =
     (case c of (r, g, b) \<Rightarrow>
        (clamp255 \<lfloor>128 + f * (of_int r - 128)\<rfloor>,
         clamp255 \<lfloor>128 + f * (of_int g - 128)\<rfloor>,
         clamp255 \<lfloor>128 + f * (of_int b - 128)\<rfloor>))"

definition dist2 :: "rgb \<Rightarrow> rgb \<Rightarrow> int" where
  "dist2 p c =
     (case p of (r, g, b) \<Rightarrow> case c of (r', g', b') \<Rightarrow>
        (r - r') * (r - r') + (g - g') * (g - g') + (b - b') * (b - b'))"

fun nearest_colour :: "rgb list \<Rightarrow> rgb \<Rightarrow> rgb" where
  "nearest_colour [] c = c"
| "nearest_colour [p] c = p"
| "nearest_colour (p # q # ps) c =
     (let r = nearest_colour (q # ps) c
      in if dist2 p c \<le> dist2 r c then p else r)"

definition cell_corner :: "rgb \<Rightarrow> rgb" where
  "cell_corner c = (case c of (r, g, b) \<Rightarrow> (r - r mod 4, g - g mod 4, b - b mod 4))"

definition palette_lookup :: "rgb list \<Rightarrow> rgb \<Rightarrow> rgb" where
  "palette_lookup palette c = nearest_colour palette (cell_corner c)"

definition byte_colour :: "rgb \<Rightarrow> bool" where
  "byte_colour c =
     (case c of (r, g, b) \<Rightarrow> 0 \<le> r \<and> r \<le> 255 \<and> 0 \<le> g \<and> g \<le> 255 \<and> 0 \<le> b \<and> b \<le> 255)"

definition sample_imaging :: imaging where
  "sample_imaging =
     \<lparr>enhance_brightness = (\<lambda>f img. map_pixels (scale_colour f) img),
      enhance_contrast = (\<lambda>f img. map_pixels (contrast_colour f) img),
      quantize_palette =
        (\<lambda>palette img.
           if palette = [] \<or> 256 < length palette \<or> \<not> list_all byte_colour palette
           then Inl ValueError
           else Inr (map_pixels (palette_lookup palette) img)),
      quantize_mediancut =
        (\<lambda>colors img. if colors < 1 \<or> 256 < colors then Inl ValueError else Inr img),
      allocate_error =
        (\<lambda>w h. if int w * int h \<le> 2 ^ 28 then None else Some MemoryError),
      save_error = (\<lambda>path. if path = [] then Some FileNotFoundError else None)\<rparr>"

text \<open>An encoder that succeeds and writes a file at the requested rate.\<close>

definition sample_encoder :: "ffmpeg_command \<Rightarrow> (string \<rightharpoonup> content) \<Rightarrow> error + (string \<rightharpoonup> content)" where
  "sample_encoder cmd fs = Inr (fs(out_path cmd \<mapsto> Video (framerate cmd) []))"

definition solid :: "nat \<Rightarrow> nat \<Rightarrow> rgb \<Rightarrow> image" where
  "solid w h c = \<lparr>iwidth = w, iheight = h, pixel = (\<lambda>x y. c)\<rparr>"

definition world_of :: "(string \<times> content) list \<Rightarrow> world" where
  "world_of entries =
     \<lparr>files = map_of entries, stdout = [], temp_dirs = [], open_captures = [],
      subprocesses = []\<rparr>"

section \<open>The palette file format as the specification words it\<close>

text \<open>
  The specification's reading of a palette line: whitespace stripped, one optional leading
  \<open>#\<close>, then exactly six hex digits, read in pairs as red, green and blue.
\<close>

definition is_hex :: "char \<Rightarrow> bool" where
  "is_hex c = (hex_value c \<noteq> None)"

definition hexv :: "char \<Rightarrow> int" where
  "hexv c = (case hex_value c of Some v \<Rightarrow> v | None \<Rightarrow> 0)"

definition spec_token :: "string \<Rightarrow> string" where
  "spec_token l = (case strip l of [] \<Rightarrow> [] | c # r \<Rightarrow> if c = CHR ''#'' then r else c # r)"

definition spec_valid_line :: "string \<Rightarrow> bool" where
  "spec_valid_line l = (length (spec_token l) = 6 \<and> list_all is_hex (spec_token l))"

definition spec_line_colour :: "string \<Rightarrow> rgb" where
  "spec_line_colour l =
     (case map hexv (spec_token l) of
        [a, b, c, d, e, f] \<Rightarrow> (16 * a + b, 16 * c + d, 16 * e + f)
      | _ \<Rightarrow> (0, 0, 0))"

text \<open>
  The slices of at most two characters that parse: one hex digit, two hex digits, or one
  hex digit with a sign before it or a blank of \<open>int()\<close> before or after it. A line parses
  when its three slices at 0, 2 and 4 do.
\<close>

definition is_sign :: "char \<Rightarrow> bool" where
  "is_sign c = (c = CHR ''+'' \<or> c = CHR ''-'')"

definition slice_accepted :: "string \<Rightarrow> bool" where
  "slice_accepted s =
     (case s of
        [a] \<Rightarrow> is_hex a
      | [a, b] \<Rightarrow> (is_hex a \<and> (is_hex b \<or> int_space b))
                   \<or> ((is_sign a \<or> int_space a) \<and> is_hex b)
      | _ \<Rightarrow> False)"

definition line_accepted :: "string \<Rightarrow> bool" where
  "line_accepted line =
     (slice_accepted (slice2 line 0) \<and> slice_accepted (slice2 line 2)
      \<and> slice_accepted (slice2 line 4))"

text \<open>
  A palette quantizer without dithering recolours pixel by pixel: \<open>f\<close> is what it makes of
  each colour, for this palette.
\<close>

definition recolours :: "imaging \<Rightarrow> rgb list \<Rightarrow> (rgb \<Rightarrow> rgb) \<Rightarrow> bool" where
  "recolours L palette f = (\<forall>img. quantize_palette L palette img = Inr (map_pixels f img))"

text \<open>Sample worlds.\<close>

definition w_video :: world where
  "w_video = world_of [(''clip.mp4'', Video 24 [solid 4 2 (10, 20, 30)])]"

definition w_bad_palette :: world where
  "w_bad_palette =
     world_of [(''clip.mp4'', Video 24 [solid 4 2 (10, 20, 30), solid 4 2 (10, 20, 30)]),
               (''pal.txt'', Text ''ff0000\<newline>zz\<newline>'')]"

definition w_empty_palette :: world where
  "w_empty_palette =
     world_of [(''in.png'', Picture (solid 4 2 (10, 20, 30))), (''empty.txt'', Text [])]"

definition w_palette :: world where
  "w_palette = world_of [(''pal.txt'', Text ''#FFFFFF\<newline>000000\<newline>  #fff2e5 \<newline>'')]"

definition w_short_line :: world where
  "w_short_line = world_of [(''pal.txt'', Text ''#FFFFFF\<newline>#abcd\<newline>'')]"

definition w_long_line :: world where
  "w_long_line = world_of [(''pal.txt'', Text ''FFFFFF00\<newline>'')]"

definition w_letter_line :: world where
  "w_letter_line = world_of [(''pal.txt'', Text ''12x456\<newline>'')]"

definition w_tail_line :: world where
  "w_tail_line = world_of [(''pal.txt'', Text ''#0a0b0cxyz\<newline>'')]"

definition w_4x3 :: world where
  "w_4x3 = world_of [(''in.png'', Picture (solid 4 3 (10, 20, 30)))]"

definition w_11x15 :: world where
  "w_11x15 = world_of [(''in.png'', Picture (solid 11 15 (10, 20, 30)))]"

definition w_two_frames :: world where
  "w_two_frames =
     world_of [(''clip.mp4'', Video 24 [solid 4 2 (10, 20, 30), solid 4 2 (200, 100, 50)])]"

definition w_8x4_palette :: world where
  "w_8x4_palette =
     world_of [(''in.png'', Picture (solid 8 4 (250, 0, 0))),
               (''pal.txt'', Text ''ff0000\<newline>0000ff\<newline>'')]"

definition w_22x31_palette :: world where
  "w_22x31_palette =
     world_of [(''in.png'', Picture (solid 22 31 (10, 20, 30))),
               (''pal.txt'', Text ''000000\<newline>ffffff\<newline>'')]"

definition w_22x31_first_pass :: world where
  "w_22x31_first_pass =
     snd (pixelate_image sample_imaging w_22x31_palette ''in.png'' ''out1.png'' 11 64 2 1 1
            (Some ''pal.txt''))"

definition w_close_palette :: world where
  "w_close_palette =
     world_of [(''in.png'', Picture (solid 8 4 (12, 0, 0))),
               (''pal.txt'', Text ''070000\<newline>040000\<newline>'')]"

definition w_close_first_pass :: world where
  "w_close_first_pass =
     snd (pixelate_image sample_imaging w_close_palette ''in.png'' ''out1.png'' 4 64 2 1 1
            (Some ''pal.txt''))"

definition w_close_second_pass :: world where
  "w_close_second_pass =
     snd (pixelate_image sample_imaging w_close_first_pass ''out1.png'' ''out2.png'' 4 64 2 1 1
            (Some ''pal.txt''))"

section \<open>Effects of the steps on the world\<close>

lemma load_palette_fields:
  "load_palette_from_file w p = (r, w') \<Longrightarrow>
     files w' = files w \<and> temp_dirs w' = temp_dirs w \<and> open_captures w' = open_captures w
       \<and> subprocesses w' = subprocesses w"
  by (auto simp: load_palette_from_file_def split: option.splits content.splits sum.splits)

lemma quantize_fields:
  "quantize L w n pf img = (r, w') \<Longrightarrow>
     files w' = files w \<and> temp_dirs w' = temp_dirs w \<and> open_captures w' = open_captures w
       \<and> subprocesses w' = subprocesses w"
  by (auto simp: quantize_def split: option.splits if_splits prod.splits sum.splits
      dest: load_palette_fields)

lemma pixelate_image_fields:
  "pixelate_image L w ip op tw ps sc bf cf pf = (r, w') \<Longrightarrow>
     temp_dirs w' = temp_dirs w \<and> open_captures w' = open_captures w
       \<and> subprocesses w' = subprocesses w"
  by (auto simp: pixelate_image_def Let_def split: sum.splits prod.splits option.splits
      dest: quantize_fields)

lemma frame_loop_fields:
  "frame_loop L tmp tw ps sc bf cf pf frames n w = (r, w') \<Longrightarrow>
     temp_dirs w' = temp_dirs w \<and> open_captures w' = open_captures w
       \<and> subprocesses w' = subprocesses w"
proof (induction frames arbitrary: n w)
  case Nil
  then show ?case by simp
next
  case (Cons f frames)
  obtain r1 w1 where p: "pixelate_image L (imwrite w (temp_image_path tmp n) (swap_channels f))
      (temp_image_path tmp n) (output_image_path tmp n) tw ps sc bf cf pf = (r1, w1)"
    by (cases "pixelate_image L (imwrite w (temp_image_path tmp n) (swap_channels f))
      (temp_image_path tmp n) (output_image_path tmp n) tw ps sc bf cf pf")
  from pixelate_image_fields [OF p]
  have f1: "temp_dirs w1 = temp_dirs w \<and> open_captures w1 = open_captures w
       \<and> subprocesses w1 = subprocesses w"
    by (simp add: imwrite_def)
  show ?case
  proof (cases r1)
    case (Inl e)
    with Cons.prems p f1 show ?thesis by (simp add: Let_def)
  next
    case (Inr u)
    with Cons.prems p have "frame_loop L tmp tw ps sc bf cf pf frames (n + 1) w1 = (r, w')"
      by (simp add: Let_def)
    from Cons.IH [OF this] f1 show ?thesis by simp
  qed
qed

section \<open>Brightness and contrast\<close>

text \<open>
  C5: with \<open>brightness_factor = 1.0\<close> and \<open>contrast_factor = 1.0\<close> the two enhancement steps
  are skipped, so the image that reaches the downscale step is the decoded image, pixel for
  pixel, and the whole call does not depend on what the library's enhancers compute.
\<close>

theorem identity_enhancement:
  "adjust L 1 1 img = img
   \<and> pixelate_image (L\<lparr>enhance_brightness := eb, enhance_contrast := ec\<rparr>) w ip op tw ps sc 1 1 pf
       = pixelate_image L w ip op tw ps sc 1 1 pf"
proof -
  have s: "quantize_mediancut (L\<lparr>enhance_brightness := eb, enhance_contrast := ec\<rparr>)
      = quantize_mediancut L"
    "quantize_palette (L\<lparr>enhance_brightness := eb, enhance_contrast := ec\<rparr>)
      = quantize_palette L"
    "allocate_error (L\<lparr>enhance_brightness := eb, enhance_contrast := ec\<rparr>)
      = allocate_error L"
    "save_error (L\<lparr>enhance_brightness := eb, enhance_contrast := ec\<rparr>) = save_error L"
    by simp_all
  have q: "quantize (L\<lparr>enhance_brightness := eb, enhance_contrast := ec\<rparr>) w ps pf x
      = quantize L w ps pf x" for x
    unfolding quantize_def s by (rule refl)
  have r: "resize_nearest (L\<lparr>enhance_brightness := eb, enhance_contrast := ec\<rparr>) wh x
      = resize_nearest L wh x" for wh x
    unfolding resize_nearest_def s by (rule refl)
  have a: "adjust L' 1 1 x = x" for L' x
    by (simp add: adjust_def)
  show ?thesis
    unfolding pixelate_image_def q r s a by simp
qed

section \<open>pixelate_video: frame rate, cleanup, release\<close>

lemma cleanup_fields:
  "subprocesses (cleanup tmp w) = subprocesses w"
  "open_captures (cleanup tmp w) = open_captures w"
  "tmp \<notin> set (temp_dirs (cleanup tmp w))"
  "inside tmp p \<Longrightarrow> files (cleanup tmp w) p = None"
  by (simp_all add: cleanup_def)

lemma pixelate_video_cases:
  assumes "pixelate_video L enc tmp w ip op tw ps sc bf cf pf fps = (r, w')"
  shows "tmp \<notin> set (temp_dirs w') \<and> (\<forall>p. inside tmp p \<longrightarrow> files w' p = None) \<and>
         (((\<exists>e. r = Inl e) \<and> subprocesses w' = subprocesses w
            \<and> open_captures w' = open_captures w @ [ip, ip])
       \<or> (\<exists>cmd. subprocesses w' = subprocesses w @ [cmd]
            \<and> framerate cmd = min fps (native_fps w ip)
            \<and> open_captures w' = open_captures w @ [ip]))"
proof -
  let ?w4 = "w\<lparr>open_captures := open_captures w @ [ip],
               stdout := stdout w @ [DetectedFps (native_fps w ip)
                  (if native_fps w ip < fps then native_fps w ip else fps)],
               temp_dirs := temp_dirs w @ [tmp],
               open_captures := open_captures w @ [ip] @ [ip]\<rparr>"
  let ?cmd = "\<lparr>framerate = (if native_fps w ip < fps then native_fps w ip else fps),
                input_pattern = path_join tmp ''frame_%05d_pixelated.png'',
                vcodec = ''libx264'', pix_fmt = ''yuv420p'', out_path = op\<rparr>"
  obtain r5 w5 where loop: "frame_loop L tmp tw ps sc bf cf pf (decoded_frames ?w4 ip) 0 ?w4 = (r5, w5)"
    by (cases "frame_loop L tmp tw ps sc bf cf pf (decoded_frames ?w4 ip) 0 ?w4")
  from frame_loop_fields [OF loop]
  have f: "subprocesses w5 = subprocesses w" "open_captures w5 = open_captures w @ [ip, ip]"
    by simp_all
  have m: "framerate ?cmd = min fps (native_fps w ip)"
    by (simp add: min_def)
  show ?thesis
  proof (cases r5)
    case (Inl e)
    with assms loop have "r = Inl e" "w' = cleanup tmp w5"
      by (simp_all add: pixelate_video_def find_framerate_def Let_def)
    with f show ?thesis by (simp add: cleanup_fields)
  next
    case (Inr n)
    let ?w7 = "(release ip w5)\<lparr>subprocesses := subprocesses (release ip w5) @ [?cmd]\<rparr>"
    have g: "subprocesses ?w7 = subprocesses w @ [?cmd]" "open_captures ?w7 = open_captures w @ [ip]"
      using f by (simp_all add: release_def butlast_append)
    from Inr assms loop
    have "w' = cleanup tmp ?w7 \<or> (\<exists>fs. w' = cleanup tmp (?w7\<lparr>files := fs\<rparr>))"
      by (auto simp: pixelate_video_def find_framerate_def Let_def split: sum.splits)
    then have "tmp \<notin> set (temp_dirs w') \<and> (\<forall>p. inside tmp p \<longrightarrow> files w' p = None)
        \<and> subprocesses w' = subprocesses w @ [?cmd] \<and> open_captures w' = open_captures w @ [ip]"
      using g by (auto simp: cleanup_fields)
    with m show ?thesis by blast
  qed
qed

lemma encoder_runs_append: "subprocesses w' = subprocesses w @ xs \<Longrightarrow> encoder_runs w w' = xs"
  by (simp add: encoder_runs_def)

text \<open>
  C7: every encoder command that \<open>pixelate_video\<close> runs carries the frame rate
  \<open>min fps native\<close>, which does not exceed the native frame rate probed from the input;
  a call that returns normally has run the encoder exactly once.
\<close>

theorem effective_fps_is_min:
  assumes "pixelate_video L enc tmp w ip op tw ps sc bf cf pf fps = (r, w')"
  shows "list_all (\<lambda>cmd. framerate cmd = min fps (native_fps w ip)
                        \<and> framerate cmd \<le> native_fps w ip) (encoder_runs w w')
         \<and> (r = Inr () \<longrightarrow> length (encoder_runs w w') = 1)"
  using pixelate_video_cases [OF assms]
  by (auto simp: encoder_runs_append encoder_runs_append [where xs = "[]", simplified])

theorem effective_fps_is_min_witness:
  "map framerate (encoder_runs w_video
      (snd (pixelate_video sample_imaging sample_encoder ''/tmp/t'' w_video
              ''clip.mp4'' ''out.mp4'' 2 4 3 1 1 None 30))) = [24]"
proof -
  let ?run = "pixelate_video sample_imaging sample_encoder ''/tmp/t'' w_video
              ''clip.mp4'' ''out.mp4'' 2 4 3 1 1 None 30"
  have r: "fst ?run = Inr ()" by code_simp
  have n: "native_fps w_video ''clip.mp4'' = 24" by code_simp
  have "?run = (Inr (), snd ?run)" using r by (metis prod.collapse)
  from effective_fps_is_min [OF this] n
  have a: "list_all (\<lambda>cmd. framerate cmd = 24) (encoder_runs w_video (snd ?run))"
    and b: "length (encoder_runs w_video (snd ?run)) = 1"
    by (simp_all add: list_all_iff)
  from b obtain c where c: "encoder_runs w_video (snd ?run) = [c]"
    by (cases "encoder_runs w_video (snd ?run)") auto
  with a show ?thesis by simp
qed


lemma pixelate_video_loop:
  "\<exists>r5 w5. frame_loop L tmp tw ps sc bf cf pf (decoded_frames w ip) 0 (at_loop_entry w ip tmp fps)
             = (r5, w5)
     \<and> subprocesses w5 = subprocesses w
     \<and> open_captures w5 = open_captures w @ [ip, ip]
     \<and> (case r5 of
           Inl e \<Rightarrow> pixelate_video L enc tmp w ip op tw ps sc bf cf pf fps = (Inl e, cleanup tmp w5)
         | Inr n \<Rightarrow> (\<exists>w7. pixelate_video L enc tmp w ip op tw ps sc bf cf pf fps
                              = (case enc (last (subprocesses w7)) (files w5) of
                                   Inl e \<Rightarrow> Inl e | Inr fs \<Rightarrow> Inr (), cleanup tmp w7)
                     \<and> subprocesses w7 = subprocesses w @ [last (subprocesses w7)]
                     \<and> open_captures w7 = open_captures w @ [ip]))"
proof -
  have m: "(if native_fps w ip < fps then native_fps w ip else fps) = min fps (native_fps w ip)"
    by (simp add: min_def)
  let ?w4 = "at_loop_entry w ip tmp fps"
  let ?cmd = "\<lparr>framerate = min fps (native_fps w ip),
                input_pattern = path_join tmp ''frame_%05d_pixelated.png'',
                vcodec = ''libx264'', pix_fmt = ''yuv420p'', out_path = op\<rparr>"
  have d: "decoded_frames ?w4 ip = decoded_frames w ip"
    by (simp add: decoded_frames_def at_loop_entry_def)
  obtain r5 w5 where loop: "frame_loop L tmp tw ps sc bf cf pf (decoded_frames w ip) 0 ?w4 = (r5, w5)"
    by (cases "frame_loop L tmp tw ps sc bf cf pf (decoded_frames w ip) 0 ?w4")
  from frame_loop_fields [OF loop]
  have f: "subprocesses w5 = subprocesses w" "open_captures w5 = open_captures w @ [ip, ip]"
    by (simp_all add: at_loop_entry_def)
  show ?thesis
  proof (cases r5)
    case (Inl e)
    with loop d have "pixelate_video L enc tmp w ip op tw ps sc bf cf pf fps = (Inl e, cleanup tmp w5)"
      by (simp add: pixelate_video_def find_framerate_def Let_def m at_loop_entry_def)
    with loop f Inl show ?thesis by simp
  next
    case (Inr n)
    let ?w7 = "(release ip w5)\<lparr>subprocesses := subprocesses (release ip w5) @ [?cmd]\<rparr>"
    have g: "subprocesses ?w7 = subprocesses w @ [?cmd]" "open_captures ?w7 = open_captures w @ [ip]"
      "files ?w7 = files w5"
      using f by (simp_all add: release_def butlast_append)
    show ?thesis
    proof (cases "enc ?cmd (files w5)")
      case (Inl e)
      with Inr loop d g(3)
      have "pixelate_video L enc tmp w ip op tw ps sc bf cf pf fps = (Inl e, cleanup tmp ?w7)"
        by (simp add: pixelate_video_def find_framerate_def Let_def m at_loop_entry_def)
      with Inl g have "pixelate_video L enc tmp w ip op tw ps sc bf cf pf fps
            = (case enc (last (subprocesses ?w7)) (files w5) of
                 Inl e \<Rightarrow> Inl e | Inr fs \<Rightarrow> Inr (), cleanup tmp ?w7)
          \<and> subprocesses ?w7 = subprocesses w @ [last (subprocesses ?w7)]
          \<and> open_captures ?w7 = open_captures w @ [ip]"
        by simp
      then have "\<exists>w7. pixelate_video L enc tmp w ip op tw ps sc bf cf pf fps
            = (case enc (last (subprocesses w7)) (files w5) of
                 Inl e \<Rightarrow> Inl e | Inr fs \<Rightarrow> Inr (), cleanup tmp w7)
          \<and> subprocesses w7 = subprocesses w @ [last (subprocesses w7)]
          \<and> open_captures w7 = open_captures w @ [ip]"
        by (rule exI)
      with loop f \<open>r5 = Inr n\<close> show ?thesis by simp
    next
      case (Inr fs)
      let ?w8 = "?w7\<lparr>files := fs\<rparr>"
      from Inr \<open>r5 = Inr n\<close> loop d g(3)
      have "pixelate_video L enc tmp w ip op tw ps sc bf cf pf fps = (Inr (), cleanup tmp ?w8)"
        by (simp add: pixelate_video_def find_framerate_def Let_def m at_loop_entry_def)
      with Inr g have "pixelate_video L enc tmp w ip op tw ps sc bf cf pf fps
            = (case enc (last (subprocesses ?w8)) (files w5) of
                 Inl e \<Rightarrow> Inl e | Inr fs \<Rightarrow> Inr (), cleanup tmp ?w8)
          \<and> subprocesses ?w8 = subprocesses w @ [last (subprocesses ?w8)]
          \<and> open_captures ?w8 = open_captures w @ [ip]"
        by simp
      then have "\<exists>w7. pixelate_video L enc tmp w ip op tw ps sc bf cf pf fps
            = (case enc (last (subprocesses w7)) (files w5) of
                 Inl e \<Rightarrow> Inl e | Inr fs \<Rightarrow> Inr (), cleanup tmp w7)
          \<and> subprocesses w7 = subprocesses w @ [last (subprocesses w7)]
          \<and> open_captures w7 = open_captures w @ [ip]"
        by (rule exI)
      with loop f \<open>r5 = Inr n\<close> show ?thesis by simp
    qed
  qed
qed

text \<open>
  C10: every run of \<open>pixelate_video\<close> ends with the temporary directory gone and no file
  left in it. When the frame loop is left by an exception of the per-frame pixelation, the
  call raises that exception, the encoder is not run, and both decoder handles (the one of
  \<open>find_framerate\<close> and the one of the loop) are still open: \<open>release\<close> was not called. When
  the loop ends normally the loop's handle has been released before the encoder runs.
\<close>

theorem loop_failure_cleanup_no_release:
  assumes "pixelate_video L enc tmp w ip op tw ps sc bf cf pf fps = (r, w')"
  shows "tmp \<notin> set (temp_dirs w') \<and> (\<forall>p. inside tmp p \<longrightarrow> files w' p = None)
     \<and> (\<forall>e w5. frame_loop L tmp tw ps sc bf cf pf (decoded_frames w ip) 0
                    (at_loop_entry w ip tmp fps) = (Inl e, w5) \<longrightarrow>
            r = Inl e \<and> encoder_runs w w' = []
            \<and> open_captures w' = open_captures w @ [ip, ip])
     \<and> (\<forall>n w5. frame_loop L tmp tw ps sc bf cf pf (decoded_frames w ip) 0
                    (at_loop_entry w ip tmp fps) = (Inr n, w5) \<longrightarrow>
            encoder_runs w w' \<noteq> []
            \<and> open_captures w' = open_captures w @ [ip])"
proof -
  from pixelate_video_loop [of L tmp tw ps sc bf cf pf w ip fps enc op]
  obtain r5 w5 where
    loop: "frame_loop L tmp tw ps sc bf cf pf (decoded_frames w ip) 0 (at_loop_entry w ip tmp fps)
             = (r5, w5)"
    and f: "subprocesses w5 = subprocesses w" "open_captures w5 = open_captures w @ [ip, ip]"
    and c: "case r5 of
           Inl e \<Rightarrow> pixelate_video L enc tmp w ip op tw ps sc bf cf pf fps = (Inl e, cleanup tmp w5)
         | Inr n \<Rightarrow> (\<exists>w7. pixelate_video L enc tmp w ip op tw ps sc bf cf pf fps
                              = (case enc (last (subprocesses w7)) (files w5) of
                                   Inl e \<Rightarrow> Inl e | Inr fs \<Rightarrow> Inr (), cleanup tmp w7)
                     \<and> subprocesses w7 = subprocesses w @ [last (subprocesses w7)]
                     \<and> open_captures w7 = open_captures w @ [ip])"
    by blast
  show ?thesis
  proof (cases r5)
    case (Inl e)
    with c assms have "r = Inl e" "w' = cleanup tmp w5" by simp_all
    with f loop Inl show ?thesis
      by (simp add: cleanup_fields encoder_runs_def)
  next
    case (Inr n)
    with c assms obtain w7 where "w' = cleanup tmp w7"
      "subprocesses w7 = subprocesses w @ [last (subprocesses w7)]"
      "open_captures w7 = open_captures w @ [ip]"
      by auto
    with loop Inr show ?thesis
      by (simp add: cleanup_fields encoder_runs_append)
  qed
qed

theorem loop_failure_cleanup_no_release_witness:
  "fst (frame_loop sample_imaging ''/tmp/t'' 2 4 3 1 1 (Some ''pal.txt'')
          (decoded_frames w_bad_palette ''clip.mp4'') 0
          (at_loop_entry w_bad_palette ''clip.mp4'' ''/tmp/t'' 30)) = Inl ValueError
   \<and> fst (pixelate_video sample_imaging sample_encoder ''/tmp/t'' w_bad_palette
          ''clip.mp4'' ''out.mp4'' 2 4 3 1 1 (Some ''pal.txt'') 30) = Inl ValueError
   \<and> encoder_runs w_bad_palette (snd (pixelate_video sample_imaging sample_encoder ''/tmp/t''
          w_bad_palette ''clip.mp4'' ''out.mp4'' 2 4 3 1 1 (Some ''pal.txt'') 30)) = []
   \<and> inside ''/tmp/t'' (temp_image_path ''/tmp/t'' 0)
   \<and> files (snd (pixelate_video sample_imaging sample_encoder ''/tmp/t'' w_bad_palette
          ''clip.mp4'' ''out.mp4'' 2 4 3 1 1 (Some ''pal.txt'') 30)) (temp_image_path ''/tmp/t'' 0) = None
   \<and> open_captures (snd (pixelate_video sample_imaging sample_encoder ''/tmp/t'' w_bad_palette
          ''clip.mp4'' ''out.mp4'' 2 4 3 1 1 (Some ''pal.txt'') 30)) = [''clip.mp4'', ''clip.mp4'']"
proof -
  let ?run = "pixelate_video sample_imaging sample_encoder ''/tmp/t'' w_bad_palette
          ''clip.mp4'' ''out.mp4'' 2 4 3 1 1 (Some ''pal.txt'') 30"
  let ?loop = "frame_loop sample_imaging ''/tmp/t'' 2 4 3 1 1 (Some ''pal.txt'')
          (decoded_frames w_bad_palette ''clip.mp4'') 0
          (at_loop_entry w_bad_palette ''clip.mp4'' ''/tmp/t'' 30)"
  have l: "fst ?loop = Inl ValueError" by code_simp
  then have l': "?loop = (Inl ValueError, snd ?loop)" by (metis prod.collapse)
  have i: "inside ''/tmp/t'' (temp_image_path ''/tmp/t'' 0)" by code_simp
  have o: "open_captures w_bad_palette = []" by code_simp
  have "?run = (fst ?run, snd ?run)" by simp
  note t = loop_failure_cleanup_no_release [OF this]
  from t i have c1: "files (snd ?run) (temp_image_path ''/tmp/t'' 0) = None" by blast
  from t l' have c2: "fst ?run = Inl ValueError \<and> encoder_runs w_bad_palette (snd ?run) = []
      \<and> open_captures (snd ?run) = open_captures w_bad_palette @ [''clip.mp4'', ''clip.mp4'']"
    by blast
  from c1 c2 l i o show ?thesis by simp
qed

section \<open>Empty and missing palette files\<close>

text \<open>
  C9: a palette file that exists and is empty loads as the empty palette; the quantize step
  then calls the automatic quantizer with \<open>palette_size\<close> and prints nothing, so the whole
  call behaves as with no palette file. A missing palette file reaches the same quantizer
  after printing the diagnostic.
\<close>

theorem empty_palette_silent_fallback:
  "(files w path = Some (Text []) \<and> path \<noteq> [] \<longrightarrow>
      load_palette_from_file w path = (Inr (Some []), w)
      \<and> quantize L w palette_size (Some path) img = (quantize_mediancut L palette_size img, w)
      \<and> pixelate_image L w ip op tw palette_size sc bf cf (Some path)
          = pixelate_image L w ip op tw palette_size sc bf cf None)
   \<and> (files w path = None \<and> path \<noteq> [] \<longrightarrow>
      load_palette_from_file w path = (Inr None, w\<lparr>stdout := stdout w @ [PaletteNotFound path]\<rparr>)
      \<and> quantize L w palette_size (Some path) img
          = (quantize_mediancut L palette_size img, w\<lparr>stdout := stdout w @ [PaletteNotFound path]\<rparr>))"
proof -
  have q: "quantize L w palette_size (Some path) x = quantize L w palette_size None x"
    if "files w path = Some (Text [])" "path \<noteq> []" for x
    using that by (simp add: load_palette_from_file_def quantize_def file_lines_def)
  have "pixelate_image L w ip op tw palette_size sc bf cf (Some path)
          = pixelate_image L w ip op tw palette_size sc bf cf None"
    if "files w path = Some (Text [])" "path \<noteq> []"
    unfolding pixelate_image_def q [OF that] by (rule refl)
  then show ?thesis
    by (simp add: load_palette_from_file_def quantize_def file_lines_def)
qed


theorem empty_palette_silent_fallback_witness:
  "stdout (snd (pixelate_image sample_imaging w_empty_palette ''in.png'' ''out.png'' 2 4 3 1 1
                  (Some ''empty.txt''))) = []
   \<and> stdout (snd (pixelate_image sample_imaging w_empty_palette ''in.png'' ''out.png'' 2 4 3 1 1
                  (Some ''missing.txt''))) = [PaletteNotFound ''missing.txt'']
   \<and> quantize sample_imaging w_empty_palette 4 (Some ''empty.txt'') (solid 4 2 (10, 20, 30))
       = (quantize_mediancut sample_imaging 4 (solid 4 2 (10, 20, 30)), w_empty_palette)
   \<and> quantize sample_imaging w_empty_palette 4 (Some ''missing.txt'') (solid 4 2 (10, 20, 30))
       = (quantize_mediancut sample_imaging 4 (solid 4 2 (10, 20, 30)),
          w_empty_palette\<lparr>stdout := stdout w_empty_palette @ [PaletteNotFound ''missing.txt'']\<rparr>)"
proof -
  have f: "files w_empty_palette ''empty.txt'' = Some (Text [])"
    "files w_empty_palette ''missing.txt'' = None"
    by (simp_all add: w_empty_palette_def world_of_def)
  have 1: "stdout (snd (pixelate_image sample_imaging w_empty_palette ''in.png'' ''out.png'' 2 4 3 1 1
                  (Some ''empty.txt''))) = []" by code_simp
  have 2: "stdout (snd (pixelate_image sample_imaging w_empty_palette ''in.png'' ''out.png'' 2 4 3 1 1
                  (Some ''missing.txt''))) = [PaletteNotFound ''missing.txt'']" by code_simp
  from empty_palette_silent_fallback [of w_empty_palette "''empty.txt''" sample_imaging 4
      "solid 4 2 (10, 20, 30)"]
    empty_palette_silent_fallback [of w_empty_palette "''missing.txt''" sample_imaging 4
      "solid 4 2 (10, 20, 30)"] f 1 2
  show ?thesis by simp
qed

section \<open>Loading a valid palette file\<close>

lemma hex_not_special:
  assumes "is_hex c"
  shows "\<not> isspace c" "c \<noteq> CHR ''+''" "c \<noteq> CHR ''-''" "c \<noteq> CHR ''_''" "c \<noteq> CHR ''x''"
    "c \<noteq> CHR ''X''" "c \<noteq> CHR ''#''" "\<not> int_space c"
  using assms
  by (auto simp: is_hex_def hex_value_def isspace_def int_space_def Let_def split: if_splits)

lemma hex_value_hexv: "is_hex c \<Longrightarrow> hex_value c = Some (hexv c)"
  by (auto simp: is_hex_def hexv_def)

lemma py_int16_two_hex:
  assumes "is_hex a" "is_hex b"
  shows "py_int16 [a, b] = Inr (16 * hexv a + hexv b)"
  using hex_not_special [OF assms(1)] hex_not_special [OF assms(2)]
  by (simp add: py_int16_def int_strip_def skip_sign_def skip_prefix16_def
      hex_value_hexv [OF assms(1)] hex_value_hexv [OF assms(2)])

lemma parse_rgb_six_hex:
  assumes "list_all is_hex [a, b, c, d, e, f]"
  shows "parse_rgb [a, b, c, d, e, f] = Inr (16 * hexv a + hexv b, 16 * hexv c + hexv d, 16 * hexv e + hexv f)"
  using assms by (simp add: parse_rgb_def slice2_def py_int16_two_hex)

lemma length_six:
  "length xs = 6 \<Longrightarrow> \<exists>a b c d e f. xs = [a, b, c, d, e, f]"
  by (auto simp: length_Suc_conv eval_nat_numeral)

lemma clean_line_valid:
  assumes "spec_valid_line l"
  shows "clean_line l = spec_token l"
proof -
  from assms obtain a b c d e f where t: "spec_token l = [a, b, c, d, e, f]"
    and h: "list_all is_hex [a, b, c, d, e, f]"
    using length_six unfolding spec_valid_line_def by metis
  show ?thesis
  proof (cases "strip l")
    case Nil
    with t show ?thesis by (simp add: spec_token_def)
  next
    case (Cons x r)
    show ?thesis
    proof (cases "x = CHR ''#''")
      case True
      with Cons t have r: "r = [a, b, c, d, e, f]" by (simp add: spec_token_def)
      from h have "a \<noteq> CHR ''#''" using hex_not_special(7) by simp
      with Cons True r t show ?thesis
        by (simp add: clean_line_def startswith_hash_def lstrip_hash_def spec_token_def)
    next
      case False
      with Cons show ?thesis
        by (simp add: clean_line_def startswith_hash_def spec_token_def)
    qed
  qed
qed

lemma parse_rgb_valid:
  assumes "spec_valid_line l"
  shows "parse_rgb (clean_line l) = Inr (spec_line_colour l)"
proof -
  from assms obtain a b c d e f where t: "spec_token l = [a, b, c, d, e, f]"
    and h: "list_all is_hex [a, b, c, d, e, f]"
    using length_six unfolding spec_valid_line_def by metis
  show ?thesis
    using parse_rgb_six_hex [OF h] t
    by (simp add: clean_line_valid [OF assms] spec_line_colour_def)
qed

lemma parse_lines_valid:
  "list_all spec_valid_line ls \<Longrightarrow> parse_lines ls acc = Inr (acc @ map spec_line_colour ls)"
  by (induction ls arbitrary: acc) (simp_all add: parse_rgb_valid)

text \<open>
  C2: a palette file whose every line is a valid token loads to one colour per line, in
  file order, each colour being the one the specification reads from the line. A path
  that does not exist gives \<open>None\<close>, which is not the empty palette.
\<close>

theorem load_palette_valid_file:
  "(files w path = Some (Text t) \<and> list_all spec_valid_line (file_lines t) \<longrightarrow>
      load_palette_from_file w path = (Inr (Some (map spec_line_colour (file_lines t))), w))
   \<and> (files w path = None \<longrightarrow>
        fst (load_palette_from_file w path) = Inr None
        \<and> fst (load_palette_from_file w path) \<noteq> Inr (Some []))"
  by (simp add: load_palette_from_file_def parse_lines_valid)


theorem load_palette_valid_file_witness:
  "fst (load_palette_from_file w_palette ''pal.txt'')
     = Inr (Some [(255, 255, 255), (0, 0, 0), (255, 242, 229)])
   \<and> fst (load_palette_from_file w_palette ''none.txt'') = Inr None"
proof -
  have f: "files w_palette ''pal.txt'' = Some (Text ''#FFFFFF\<newline>000000\<newline>  #fff2e5 \<newline>'')"
    "files w_palette ''none.txt'' = None"
    by (simp_all add: w_palette_def world_of_def)
  have v: "list_all spec_valid_line (file_lines ''#FFFFFF\<newline>000000\<newline>  #fff2e5 \<newline>'')"
    by code_simp
  have c: "map spec_line_colour (file_lines ''#FFFFFF\<newline>000000\<newline>  #fff2e5 \<newline>'')
      = [(255, 255, 255), (0, 0, 0), (255, 242, 229)]"
    by code_simp
  from load_palette_valid_file [of w_palette "''pal.txt''" "''#FFFFFF\<newline>000000\<newline>  #fff2e5 \<newline>''"]
    load_palette_valid_file [of w_palette "''none.txt''"] f v c
  show ?thesis by simp
qed

section \<open>Malformed palette lines\<close>

lemma hex_plain:
  assumes "is_hex c"
  shows "\<not> int_space c \<and> \<not> is_sign c \<and> c \<noteq> CHR ''_'' \<and> c \<noteq> CHR ''x'' \<and> c \<noteq> CHR ''X''"
  using assms
  by (auto simp: is_hex_def hex_value_def int_space_def is_sign_def Let_def split: if_splits)

lemma int_space_plain:
  assumes "int_space c"
  shows "\<not> is_hex c \<and> \<not> is_sign c \<and> c \<noteq> CHR ''_'' \<and> c \<noteq> CHR ''0''"
  using assms
  by (auto simp: is_hex_def hex_value_def int_space_def is_sign_def Let_def split: if_splits)

lemma sign_plain:
  assumes "is_sign c"
  shows "\<not> is_hex c \<and> c \<noteq> CHR ''_'' \<and> c \<noteq> CHR ''0''"
  using assms by (auto simp: is_hex_def hex_value_def is_sign_def Let_def)

lemma plain_chars:
  "\<not> is_hex (CHR ''_'')" "\<not> is_hex (CHR ''x'')" "\<not> is_hex (CHR ''X'')" "is_hex (CHR ''0'')"
  "\<not> is_sign (CHR ''_'')" "\<not> is_sign (CHR ''0'')"
  by (simp_all add: is_hex_def hex_value_def is_sign_def)

lemma hex_value_underscore: "hex_value (CHR ''_'') = None"
  by (simp add: hex_value_def)

lemma digits16_one: "digits16 acc [c] = (if is_hex c then Some (16 * acc + hexv c) else None)"
  by (auto simp: is_hex_def hexv_def hex_value_underscore split: option.splits)

lemma digits16_two:
  assumes "a \<noteq> CHR ''_''"
  shows "digits16 acc [a, b]
     = (if is_hex a \<and> is_hex b then Some (16 * (16 * acc + hexv a) + hexv b) else None)"
  using assms
  by (auto simp: is_hex_def hexv_def hex_value_underscore split: option.splits)

lemma py_int16_same_strip: "int_strip s = int_strip s' \<Longrightarrow> py_int16 s = py_int16 s'"
  by (simp add: py_int16_def)

lemma int_strip_cases:
  "int_strip [] = []"
  "int_strip [a] = (if int_space a then [] else [a])"
  "int_strip [a, b] = (if int_space a then (if int_space b then [] else [b])
                       else if int_space b then [a] else [a, b])"
  by (simp_all add: int_strip_def)

lemma py_int16_nil: "py_int16 [] = Inl ValueError"
  by (simp add: py_int16_def int_strip_def skip_sign_def skip_prefix16_def)

lemma py_int16_signed:
  assumes "int_strip s = a # t" "is_sign a"
  shows "(\<exists>v. py_int16 s = Inr v)
      = (skip_prefix16 t \<noteq> [] \<and> hd (skip_prefix16 t) \<noteq> CHR ''_''
         \<and> digits16 0 (skip_prefix16 t) \<noteq> None)"
proof -
  from assms have "\<exists>neg. skip_sign (int_strip s) = (neg, t)"
    by (auto simp: skip_sign_def is_sign_def)
  then obtain neg where n: "skip_sign (int_strip s) = (neg, t)" ..
  show ?thesis
    unfolding py_int16_def n
    by (cases "skip_prefix16 t")
       (auto simp: Let_def simp del: digits16.simps split: option.splits)
qed

lemma py_int16_unsigned:
  assumes "int_strip s = a # t" "\<not> is_sign a"
  shows "(\<exists>v. py_int16 s = Inr v)
      = (skip_prefix16 (a # t) \<noteq> [] \<and> hd (skip_prefix16 (a # t)) \<noteq> CHR ''_''
         \<and> digits16 0 (skip_prefix16 (a # t)) \<noteq> None)"
proof -
  from assms have n: "skip_sign (int_strip s) = (False, a # t)"
    by (auto simp: skip_sign_def is_sign_def)
  show ?thesis
    unfolding py_int16_def n
    by (cases "skip_prefix16 (a # t)")
       (auto simp: Let_def simp del: digits16.simps split: option.splits)
qed

lemma py_int16_plain_one:
  assumes "\<not> int_space a"
  shows "(\<exists>v. py_int16 [a] = Inr v) = is_hex a"
proof -
  have s: "int_strip [a] = [a]" using assms by (simp add: int_strip_cases)
  show ?thesis
  proof (cases "is_sign a")
    case True
    from py_int16_signed [OF s True] sign_plain [OF True] show ?thesis
      by (simp add: skip_prefix16_def)
  next
    case False
    have "is_hex a \<Longrightarrow> a \<noteq> CHR ''_''" using hex_plain by blast
    with py_int16_unsigned [OF s False] show ?thesis
      by (auto simp: skip_prefix16_def digits16_one simp del: digits16.simps)
  qed
qed

lemma py_int16_plain_two:
  assumes "\<not> int_space a" "\<not> int_space b"
  shows "(\<exists>v. py_int16 [a, b] = Inr v) = ((is_hex a \<or> is_sign a) \<and> is_hex b)"
proof -
  have s: "int_strip [a, b] = [a, b]" using assms by (simp add: int_strip_cases)
  have u: "is_hex c \<Longrightarrow> c \<noteq> CHR ''_''" for c using hex_plain by blast
  show ?thesis
  proof (cases "is_sign a")
    case True
    from py_int16_signed [OF s True] sign_plain [OF True] u [of b] show ?thesis
      by (auto simp: True skip_prefix16_def digits16_one simp del: digits16.simps)
  next
    case False
    show ?thesis
    proof (cases "a = CHR ''0'' \<and> (b = CHR ''x'' \<or> b = CHR ''X'')")
      case True
      then have p: "skip_prefix16 [a, b] = []" by (auto simp: skip_prefix16_def)
      from True have "\<not> is_hex b" using plain_chars by auto
      with py_int16_unsigned [OF s False] p show ?thesis by simp
    next
      case f: False
      then have p: "skip_prefix16 [a, b] = [a, b]" by (auto simp: skip_prefix16_def)
      show ?thesis
      proof (cases "a = CHR ''_''")
        case True
        with py_int16_unsigned [OF s False] plain_chars show ?thesis
          unfolding p by simp
      next
        case n: False
        from py_int16_unsigned [OF s False] n False show ?thesis
          unfolding p by (simp add: digits16_two [OF n] del: digits16.simps)
      qed
    qed
  qed
qed

lemma slice_accepted_iff:
  assumes "length s \<le> 2"
  shows "(\<exists>v. py_int16 s = Inr v) = slice_accepted s"
proof -
  from assms consider "s = []" | a where "s = [a]" | a b where "s = [a, b]"
    by (cases s rule: list.exhaust; cases "tl s"; cases "tl (tl s)") auto
  then show ?thesis
  proof cases
    case 1
    then show ?thesis by (simp add: py_int16_nil slice_accepted_def)
  next
    case 2
    show ?thesis
    proof (cases "int_space a")
      case True
      then have "py_int16 [a] = py_int16 []"
        by (intro py_int16_same_strip) (simp add: int_strip_cases)
      with True 2 int_space_plain [OF True] show ?thesis
        by (simp add: py_int16_nil slice_accepted_def)
    next
      case False
      with 2 py_int16_plain_one [OF False] show ?thesis by (simp add: slice_accepted_def)
    qed
  next
    case 3
    consider "int_space a" "int_space b" | "int_space a" "\<not> int_space b"
      | "\<not> int_space a" "int_space b" | "\<not> int_space a" "\<not> int_space b" by blast
    then show ?thesis
    proof cases
      case 1
      then have "py_int16 [a, b] = py_int16 []"
        by (intro py_int16_same_strip) (simp add: int_strip_cases)
      with 1 3 int_space_plain show ?thesis
        by (auto simp: py_int16_nil slice_accepted_def)
    next
      case 2
      then have "py_int16 [a, b] = py_int16 [b]"
        by (intro py_int16_same_strip) (simp add: int_strip_cases)
      with 2 3 py_int16_plain_one [OF 2(2)] int_space_plain [OF 2(1)] show ?thesis
        by (auto simp: slice_accepted_def)
    next
      case 3
      then have "py_int16 [a, b] = py_int16 [a]"
        by (intro py_int16_same_strip) (simp add: int_strip_cases)
      with 3 \<open>s = [a, b]\<close> py_int16_plain_one [OF 3(1)] int_space_plain [OF 3(2)] show ?thesis
        by (auto simp: slice_accepted_def)
    next
      case 4
      with \<open>s = [a, b]\<close> py_int16_plain_two [OF 4] hex_plain show ?thesis
        by (auto simp: slice_accepted_def)
    qed
  qed
qed

lemma py_int16_error: "py_int16 s = Inl e \<Longrightarrow> e = ValueError"
  by (auto simp: py_int16_def Let_def split: prod.splits list.splits if_splits option.splits)

lemma parse_rgb_error: "parse_rgb line = Inl e \<Longrightarrow> e = ValueError"
  by (auto simp: parse_rgb_def split: sum.splits dest: py_int16_error)

lemma slice2_length: "length (slice2 line i) \<le> 2"
  by (simp add: slice2_def)

lemma parse_rgb_accepted: "(\<exists>c. parse_rgb line = Inr c) = line_accepted line"
proof -
  have "(\<exists>c. parse_rgb line = Inr c)
      = ((\<exists>v. py_int16 (slice2 line 0) = Inr v) \<and> (\<exists>v. py_int16 (slice2 line 2) = Inr v)
         \<and> (\<exists>v. py_int16 (slice2 line 4) = Inr v))"
    by (auto simp: parse_rgb_def split: sum.splits)
  then show ?thesis
    by (simp add: slice_accepted_iff [OF slice2_length] line_accepted_def)
qed

lemma parse_rgb_take6: "parse_rgb (take 6 line) = parse_rgb line"
proof -
  have s: "slice2 (take 6 line) 0 = slice2 line 0" "slice2 (take 6 line) 2 = slice2 line 2"
    "slice2 (take 6 line) 4 = slice2 line 4"
    by (simp_all add: slice2_def drop_take)
  show ?thesis unfolding parse_rgb_def s by (rule refl)
qed

lemma take6_slices: "take 6 line = slice2 line 0 @ slice2 line 2 @ slice2 line 4"
proof -
  have "take (2 + (2 + 2)) line = take 2 line @ take 2 (drop 2 line) @ take 2 (drop 2 (drop 2 line))"
    by (simp only: take_add)
  then show ?thesis by (simp add: slice2_def)
qed

lemma slice_accepted_chars:
  "slice_accepted s \<Longrightarrow> s \<noteq> [] \<and> (\<forall>c\<in>set s. is_hex c \<or> is_sign c \<or> int_space c)"
  by (auto simp: slice_accepted_def split: list.splits)

lemma line_accepted_chars:
  assumes "line_accepted line"
  shows "5 \<le> length line \<and> (\<forall>c\<in>set (take 6 line). is_hex c \<or> is_sign c \<or> int_space c)"
proof -
  from assms have a: "slice_accepted (slice2 line 0)" "slice_accepted (slice2 line 2)"
    "slice_accepted (slice2 line 4)"
    by (simp_all add: line_accepted_def)
  from a(3) have "slice2 line 4 \<noteq> []" using slice_accepted_chars by blast
  then have "5 \<le> length line" by (simp add: slice2_def)
  with a [THEN slice_accepted_chars] show ?thesis by (auto simp: take6_slices)
qed

lemma parse_lines_error: "parse_lines ls acc = Inl e \<Longrightarrow> e = ValueError"
  by (induction ls arbitrary: acc) (auto split: sum.splits dest: parse_rgb_error)

lemma parse_lines_rejects:
  "(\<exists>e. parse_lines ls acc = Inl e) = (\<exists>l\<in>set ls. \<not> line_accepted (clean_line l))"
proof (induction ls arbitrary: acc)
  case Nil
  then show ?case by simp
next
  case (Cons l ls)
  show ?case
  proof (cases "parse_rgb (clean_line l)")
    case (Inl e)
    then have "\<not> line_accepted (clean_line l)"
      using parse_rgb_accepted [of "clean_line l"] by auto
    with Inl show ?thesis by simp
  next
    case (Inr c)
    then have "line_accepted (clean_line l)"
      using parse_rgb_accepted [of "clean_line l"] by blast
    with Inr Cons.IH [of "acc @ [c]"] show ?thesis by simp
  qed
qed

lemma parse_lines_accepts:
  "\<forall>l\<in>set ls. line_accepted (clean_line l) \<Longrightarrow>
     \<exists>pal. parse_lines ls acc = Inr (acc @ pal)
       \<and> map Inr pal = map (\<lambda>l. parse_rgb (take 6 (clean_line l))) ls"
proof (induction ls arbitrary: acc)
  case Nil
  then show ?case by simp
next
  case (Cons l ls)
  from Cons.prems have "line_accepted (clean_line l)" by simp
  then obtain c where c: "parse_rgb (clean_line l) = Inr c"
    using parse_rgb_accepted [of "clean_line l"] by blast
  from Cons.prems have "\<forall>l\<in>set ls. line_accepted (clean_line l)" by simp
  from Cons.IH [OF this, of "acc @ [c]"] obtain pal where
    p: "parse_lines ls (acc @ [c]) = Inr ((acc @ [c]) @ pal)"
      "map Inr pal = map (\<lambda>l. parse_rgb (take 6 (clean_line l))) ls"
    by blast
  have "parse_lines (l # ls) acc = Inr (acc @ (c # pal))
      \<and> map Inr (c # pal) = map (\<lambda>l. parse_rgb (take 6 (clean_line l))) (l # ls)"
    using c p by (simp add: parse_rgb_take6)
  then show ?case by blast
qed

text \<open>
  C3: a line is read through three slices of two characters, each handed to
  \<open>int(.., 16)\<close>. The load fails with \<open>ValueError\<close>, which nothing catches, exactly when some
  line, after stripping whitespace and leading \<open>#\<close>, has a slice that does not parse; a
  slice parses when it is one or two hex digits, or one hex digit with a sign before it or
  a blank before or after it. So a line of fewer than five characters is fatal, and so is a
  line with a character other than a hex digit, a sign or a blank among its first six.
  When every line parses, the palette is what the first six characters of each line parse
  to: the characters after the sixth are ignored.
\<close>

theorem malformed_line_is_fatal:
  assumes "files w path = Some (Text t)"
  shows "(load_palette_from_file w path = (Inl ValueError, w)
            \<longleftrightarrow> (\<exists>l\<in>set (file_lines t). \<not> line_accepted (clean_line l)))
       \<and> ((\<forall>l\<in>set (file_lines t). line_accepted (clean_line l)) \<longrightarrow>
            (\<exists>pal. load_palette_from_file w path = (Inr (Some pal), w)
                \<and> map Inr pal
                    = map (\<lambda>l. parse_rgb (take 6 (clean_line l))) (file_lines t)))
       \<and> (\<forall>l\<in>set (file_lines t).
            length (clean_line l) < 5
            \<or> (\<exists>c\<in>set (take 6 (clean_line l)). \<not> is_hex c \<and> \<not> is_sign c \<and> \<not> int_space c)
            \<longrightarrow> \<not> line_accepted (clean_line l))"
proof (intro conjI)
  show "load_palette_from_file w path = (Inl ValueError, w)
      \<longleftrightarrow> (\<exists>l\<in>set (file_lines t). \<not> line_accepted (clean_line l))"
  proof (cases "parse_lines (file_lines t) []")
    case (Inl e)
    with parse_lines_error [OF Inl] parse_lines_rejects [of "file_lines t" "[]"] assms
    show ?thesis by (simp add: load_palette_from_file_def)
  next
    case (Inr pal)
    with parse_lines_rejects [of "file_lines t" "[]"] assms
    show ?thesis by (simp add: load_palette_from_file_def)
  qed
  show "(\<forall>l\<in>set (file_lines t). line_accepted (clean_line l)) \<longrightarrow>
      (\<exists>pal. load_palette_from_file w path = (Inr (Some pal), w)
          \<and> map Inr pal = map (\<lambda>l. parse_rgb (take 6 (clean_line l))) (file_lines t))"
  proof
    assume "\<forall>l\<in>set (file_lines t). line_accepted (clean_line l)"
    from parse_lines_accepts [OF this, of "[]"] assms show
      "\<exists>pal. load_palette_from_file w path = (Inr (Some pal), w)
          \<and> map Inr pal = map (\<lambda>l. parse_rgb (take 6 (clean_line l))) (file_lines t)"
      by (auto simp: load_palette_from_file_def)
  qed
  show "\<forall>l\<in>set (file_lines t).
      length (clean_line l) < 5
      \<or> (\<exists>c\<in>set (take 6 (clean_line l)). \<not> is_hex c \<and> \<not> is_sign c \<and> \<not> int_space c)
      \<longrightarrow> \<not> line_accepted (clean_line l)"
    using line_accepted_chars by fastforce
qed

theorem malformed_line_is_fatal_witness:
  "load_palette_from_file w_short_line ''pal.txt'' = (Inl ValueError, w_short_line)
   \<and> load_palette_from_file w_letter_line ''pal.txt'' = (Inl ValueError, w_letter_line)
   \<and> load_palette_from_file w_tail_line ''pal.txt'' = (Inr (Some [(10, 11, 12)]), w_tail_line)"
proof -
  have f1: "files w_short_line ''pal.txt'' = Some (Text ''#FFFFFF\<newline>#abcd\<newline>'')"
    by (simp add: w_short_line_def world_of_def)
  have b1: "\<exists>l\<in>set (file_lines ''#FFFFFF\<newline>#abcd\<newline>''). \<not> line_accepted (clean_line l)"
    by code_simp
  from malformed_line_is_fatal [OF f1] b1
  have 1: "load_palette_from_file w_short_line ''pal.txt'' = (Inl ValueError, w_short_line)"
    by blast
  have f2: "files w_letter_line ''pal.txt'' = Some (Text ''12x456\<newline>'')"
    by (simp add: w_letter_line_def world_of_def)
  have l2: "file_lines ''12x456\<newline>'' = [''12x456\<newline>'']" by code_simp
  have c2: "\<not> is_hex CHR ''x'' \<and> \<not> is_sign CHR ''x'' \<and> \<not> int_space CHR ''x''
      \<and> CHR ''x'' \<in> set (take 6 (clean_line ''12x456\<newline>''))"
    by code_simp
  note t2 = malformed_line_is_fatal [OF f2]
  from t2 c2 have "\<not> line_accepted (clean_line ''12x456\<newline>'')"
    unfolding l2 by auto
  with t2 have 2: "load_palette_from_file w_letter_line ''pal.txt'' = (Inl ValueError, w_letter_line)"
    unfolding l2 by simp
  have f3: "files w_tail_line ''pal.txt'' = Some (Text ''#0a0b0cxyz\<newline>'')"
    by (simp add: w_tail_line_def world_of_def)
  have a3: "\<forall>l\<in>set (file_lines ''#0a0b0cxyz\<newline>''). line_accepted (clean_line l)"
    by code_simp
  have m3: "map (\<lambda>l. parse_rgb (take 6 (clean_line l))) (file_lines ''#0a0b0cxyz\<newline>'')
      = [Inr (10, 11, 12)]"
    by code_simp
  from malformed_line_is_fatal [OF f3] a3 obtain pal where
    p: "load_palette_from_file w_tail_line ''pal.txt'' = (Inr (Some pal), w_tail_line)"
      "map Inr pal = map (\<lambda>l. parse_rgb (take 6 (clean_line l))) (file_lines ''#0a0b0cxyz\<newline>'')"
    by blast
  from p(2) have "pal = [(10, 11, 12)]" unfolding m3 by auto
  with p(1) 1 2 show ?thesis by simp
qed

text \<open>
  C3, for every line that is not exactly six hex digits, does not hold: the line
  \<open>FFFFFF00\<close> has eight, and it loads as white.
\<close>

theorem long_line_accepted_counterexample:
  "\<not> spec_valid_line ''FFFFFF00\<newline>''
   \<and> file_lines ''FFFFFF00\<newline>'' = [''FFFFFF00\<newline>'']
   \<and> fst (load_palette_from_file w_long_line ''pal.txt'') = Inr (Some [(255, 255, 255)])"
  by code_simp

section \<open>Rounding error of a double\<close>

text \<open>
  The rounding at some values, as an IEEE 754 double has them: \<open>1 / 3\<close>, \<open>1 / 10\<close>,
  \<open>15 / 11\<close>, \<open>11 * (15 / 11)\<close>, \<open>49 * (1 / 49)\<close>, and the ties at \<open>2 ^ 53 + 1\<close> and
  \<open>2 ^ 53 + 3\<close>.
\<close>

lemma fl_values:
  "fl (1 / 3) = 6004799503160661 / 18014398509481984"
  "fl (1 / 10) = 3602879701896397 / 36028797018963968"
  "fl (15 / 11) = 6141272219141585 / 4503599627370496"
  "int_times_float 11 (fl (15 / 11)) = 8444249301319679 / 562949953421312"
  "int_times_float 49 (fl (1 / 49)) = 9007199254740991 / 9007199254740992"
  "fl 9007199254740993 = 9007199254740992"
  "fl 9007199254740995 = 9007199254740996"
  by code_simp+

lemma bitlen_bounds:
  "0 < n \<Longrightarrow> 0 < bitlen n \<and> n < 2 ^ nat (bitlen n) \<and> 2 ^ nat (bitlen n) \<le> 2 * n"
proof (induction n rule: bitlen.induct)
  case (1 n)
  show ?case
  proof (cases "n div 2 = 0")
    case True
    with "1.prems" have n: "n = 1" by presburger
    have "bitlen 1 = 1" by (simp add: bitlen.simps [of 1] bitlen.simps [of 0])
    with n show ?thesis by simp
  next
    case False
    with "1.prems" have pos: "0 < n div 2" by presburger
    from "1.IH" [OF _ pos] "1.prems"
    have ih: "0 < bitlen (n div 2)" "n div 2 < 2 ^ nat (bitlen (n div 2))"
      "2 ^ nat (bitlen (n div 2)) \<le> 2 * (n div 2)"
      by simp_all
    have b: "bitlen n = 1 + bitlen (n div 2)"
      using "1.prems" by (simp add: bitlen.simps [of n])
    have e: "nat (bitlen n) = Suc (nat (bitlen (n div 2)))"
      using b ih(1) by simp
    have "n \<le> 2 * (n div 2) + 1" by presburger
    moreover have "2 * (n div 2) \<le> n" by presburger
    ultimately show ?thesis using ih b e by simp
  qed
qed

lemma round_half_even_error: "\<bar>of_int (round_half_even y) - y\<bar> \<le> 1 / 2"
proof -
  have "of_int \<lfloor>y\<rfloor> \<le> y" "y < of_int \<lfloor>y\<rfloor> + 1" by linarith+
  then show ?thesis
    by (auto simp: round_half_even_def Let_def)
qed

lemma ilog2_lower:
  assumes "0 < x"
  shows "power_int 2 (ilog2 x) \<le> x"
proof -
  obtain p q where pq: "quotient_of x = (p, q)" by (cases "quotient_of x")
  then have q: "0 < q" and x: "x = of_int p / of_int q"
    using quotient_of_denom_pos quotient_of_div by blast+
  from assms x q have p: "0 < p" by (simp add: zero_less_divide_iff)
  let ?a = "nat (bitlen p)" and ?b = "nat (bitlen q)"
  from bitlen_bounds [OF p] have a: "0 < bitlen p" "(2::int) ^ ?a \<le> 2 * p" by simp_all
  from bitlen_bounds [OF q] have b: "0 < bitlen q" "q < 2 ^ ?b" by simp_all
  have "power_int (2::rat) (bitlen p - bitlen q - 1) \<le> x"
  proof -
    have d: "bitlen p - bitlen q - 1 = int ?a - int (Suc ?b)" using a b by simp
    have "power_int (2::rat) (int ?a - int (Suc ?b))
        = power_int 2 (int ?a) / power_int 2 (int (Suc ?b))"
      by (rule power_int_diff) simp
    also have "\<dots> = 2 ^ ?a / 2 ^ Suc ?b"
      by (simp only: power_int_of_nat)
    also have "\<dots> \<le> of_int p / of_int q"
    proof -
      have "(2::int) ^ ?a * q \<le> 2 * p * 2 ^ ?b"
        using a(2) b(2) p q by (intro mult_mono) simp_all
      then have "(of_int ((2::int) ^ ?a * q) :: rat) \<le> of_int (2 * p * 2 ^ ?b)"
        by (simp only: of_int_le_iff)
      then have "(2::rat) ^ ?a * of_int q \<le> of_int p * 2 ^ Suc ?b"
        by (simp add: mult_ac)
      then show ?thesis using q by (simp add: field_simps)
    qed
    finally show ?thesis unfolding d x .
  qed
  then show ?thesis
    by (simp add: ilog2_def pq Let_def)
qed

lemma ilog2_upper:
  assumes "0 < x"
  shows "x < power_int 2 (ilog2 x + 1)"
proof -
  obtain p q where pq: "quotient_of x = (p, q)" by (cases "quotient_of x")
  then have q: "0 < q" and x: "x = of_int p / of_int q"
    using quotient_of_denom_pos quotient_of_div by blast+
  from assms x q have p: "0 < p" by (simp add: zero_less_divide_iff)
  let ?a = "nat (bitlen p)" and ?b = "nat (bitlen q)"
  from bitlen_bounds [OF p] have a: "0 < bitlen p" "p < 2 ^ ?a" by simp_all
  from bitlen_bounds [OF q] have b: "0 < bitlen q" "(2::int) ^ ?b \<le> 2 * q" by simp_all
  have "x < power_int 2 (bitlen p - bitlen q + 1)"
  proof -
    have d: "bitlen p - bitlen q + 1 = int (Suc ?a) - int ?b" using a b by simp
    have "p * 2 ^ ?b < 2 ^ ?a * (2 * q)"
      using a(2) b(2) p q by (intro mult_less_le_imp_less) simp_all
    then have "(of_int (p * 2 ^ ?b) :: rat) < of_int (2 ^ ?a * (2 * q))"
      by (simp only: of_int_less_iff)
    then have "of_int p * (2::rat) ^ ?b < 2 ^ Suc ?a * of_int q"
      by (simp add: mult_ac)
    then have "of_int p / of_int q < (2::rat) ^ Suc ?a / 2 ^ ?b"
      using q by (simp add: field_simps)
    also have "\<dots> = power_int 2 (int (Suc ?a)) / power_int 2 (int ?b)"
      by (simp only: power_int_of_nat)
    also have "\<dots> = power_int (2::rat) (int (Suc ?a) - int ?b)"
      by (rule power_int_diff [symmetric]) simp
    finally show ?thesis unfolding d x .
  qed
  then show ?thesis
    by (simp add: ilog2_def pq Let_def not_le)
qed

lemma fl_error: "\<bar>fl x - x\<bar> \<le> \<bar>x\<bar> / 2 ^ 53"
proof (cases "x = 0")
  case True
  then show ?thesis by (simp add: fl_def)
next
  case False
  define a where "a = \<bar>x\<bar>"
  define P :: rat where "P = power_int 2 (ilog2 a - 52)"
  define m where "m = round_half_even (a / P)"
  have a: "0 < a" using False by (simp add: a_def)
  have P: "0 < P" by (simp add: P_def)
  have "P * 2 ^ 52 = power_int 2 (ilog2 a)"
    by (simp add: P_def power_int_diff)
  with ilog2_lower [OF a] have low: "P * 2 ^ 52 \<le> a" by simp
  have "\<bar>of_int m - a / P\<bar> \<le> 1 / 2"
    unfolding m_def by (rule round_half_even_error)
  then have "\<bar>of_int m - a / P\<bar> * P \<le> 1 / 2 * P"
    using P by (intro mult_right_mono) simp_all
  moreover have "\<bar>of_int m - a / P\<bar> * P = \<bar>of_int m * P - a\<bar>"
  proof -
    have "\<bar>of_int m - a / P\<bar> * P = \<bar>(of_int m - a / P) * P\<bar>"
      using P by (simp add: abs_mult)
    also have "(of_int m - a / P) * P = of_int m * P - a"
      using P by (simp add: field_simps)
    finally show ?thesis .
  qed
  ultimately have e: "\<bar>of_int m * P - a\<bar> \<le> P / 2" by simp
  have "P / 2 \<le> a / 2 ^ 53" using low by simp
  with e have e': "\<bar>of_int m * P - a\<bar> \<le> a / 2 ^ 53" by simp
  have f: "fl x = sgn x * (of_int m * P)"
    using False by (simp add: fl_def Let_def a_def P_def m_def mult.assoc)
  have "fl x - x = sgn x * (of_int m * P - a)"
    by (simp add: f a_def right_diff_distrib mult_sgn_abs)
  then have "\<bar>fl x - x\<bar> = \<bar>of_int m * P - a\<bar>"
    using False by (simp add: abs_mult abs_sgn_eq)
  with e' show ?thesis by (simp add: a_def)
qed

lemma fl_bounds:
  assumes "0 \<le> x"
  shows "(1 - 1 / 2 ^ 53) * x \<le> fl x" "fl x \<le> (1 + 1 / 2 ^ 53) * x"
proof -
  from fl_error [of x] assms have "\<bar>fl x - x\<bar> \<le> x / 2 ^ 53" by simp
  then have "fl x - x \<le> x / 2 ^ 53" "x - fl x \<le> x / 2 ^ 53" by linarith+
  then show "(1 - 1 / 2 ^ 53) * x \<le> fl x" "fl x \<le> (1 + 1 / 2 ^ 53) * x"
    by (simp_all add: left_diff_distrib distrib_right)
qed

lemma three_roundings_up: "(1 + 1 / 2 ^ 53) * ((1 + 1 / 2 ^ 53) * (1 + 1 / 2 ^ 53)) \<le> (1 + 1 / 2 ^ 51 :: rat)"
  by simp

lemma three_roundings_down: "(1 - 1 / 2 ^ 51 :: rat) \<le> (1 - 1 / 2 ^ 53) * ((1 - 1 / 2 ^ 53) * (1 - 1 / 2 ^ 53))"
  by simp

lemma float_product_error:
  fixes W w h :: int
  assumes "0 < W" "0 < w" "0 < h"
  defines "X \<equiv> (of_int (W * h) / of_int w :: rat)"
  defines "r \<equiv> int_times_float W (fl (of_int h / of_int w))"
  shows "(1 - 1 / 2 ^ 51) * X \<le> r \<and> r \<le> (1 + 1 / 2 ^ 51) * X"
proof -
  define u :: rat where "u = 1 / 2 ^ 53"
  define A :: rat where "A = of_int h / of_int w"
  define q where "q = fl A"
  define fW where "fW = fl (of_int W)"
  have u: "0 \<le> 1 - u" "0 \<le> 1 + u" by (simp_all add: u_def)
  have A: "0 \<le> A" using assms by (simp add: A_def)
  have W: "(0::rat) \<le> of_int W" using assms by simp
  have X: "X = of_int W * A" by (simp add: X_def A_def)
  have q: "(1 - u) * A \<le> q" "q \<le> (1 + u) * A"
    using fl_bounds [OF A] by (simp_all add: q_def u_def)
  have fW: "(1 - u) * of_int W \<le> fW" "fW \<le> (1 + u) * of_int W"
    using fl_bounds [OF W] by (simp_all add: fW_def u_def)
  have q0: "0 \<le> q" using q(1) u A by (meson mult_nonneg_nonneg order_trans)
  have fW0: "0 \<le> fW" using fW(1) u W by (meson mult_nonneg_nonneg order_trans)
  have p_lo: "((1 - u) * of_int W) * ((1 - u) * A) \<le> fW * q"
    using fW(1) q(1) u A W q0 fW0 by (intro mult_mono) simp_all
  have p_hi: "fW * q \<le> ((1 + u) * of_int W) * ((1 + u) * A)"
    using fW(2) q(2) u A W q0 fW0 by (intro mult_mono) simp_all
  have p0: "0 \<le> fW * q" using q0 fW0 by simp
  have r: "r = fl (fW * q)" by (simp add: r_def int_times_float_def fW_def q_def A_def)
  have r_lo: "(1 - u) * (fW * q) \<le> r" and r_hi: "r \<le> (1 + u) * (fW * q)"
    using fl_bounds [OF p0] by (simp_all add: r u_def)
  have "(1 - u) * (((1 - u) * of_int W) * ((1 - u) * A)) \<le> (1 - u) * (fW * q)"
    using p_lo u(1) by (intro mult_left_mono) simp_all
  with r_lo have lo: "((1 - u) * ((1 - u) * (1 - u))) * X \<le> r"
    by (simp add: X mult_ac)
  have "(1 + u) * (fW * q) \<le> (1 + u) * (((1 + u) * of_int W) * ((1 + u) * A))"
    using p_hi u(2) by (intro mult_left_mono) simp_all
  with r_hi have hi: "r \<le> ((1 + u) * ((1 + u) * (1 + u))) * X"
    by (simp add: X mult_ac)
  have X0: "0 \<le> X" using A W by (simp add: X)
  have "(1 - 1 / 2 ^ 51) * X \<le> ((1 - u) * ((1 - u) * (1 - u))) * X"
    using three_roundings_down X0 unfolding u_def by (intro mult_right_mono)
  moreover have "((1 + u) * ((1 + u) * (1 + u))) * X \<le> (1 + 1 / 2 ^ 51) * X"
    using three_roundings_up X0 unfolding u_def by (intro mult_right_mono)
  ultimately show ?thesis using lo hi by linarith
qed

lemma float_product_near:
  fixes W w h :: int
  assumes "0 < W" "0 < w" "0 < h" "W * h < 2 ^ 50"
  defines "r \<equiv> int_times_float W (fl (of_int h / of_int w))"
  shows "of_int (2 * (W * h) - 1) < 2 * of_int w * r \<and> 2 * of_int w * r < of_int (2 * (W * h) + 1)"
proof -
  define X :: rat where "X = of_int (W * h) / of_int w"
  from float_product_error [OF assms(1-3)]
  have b: "(1 - 1 / 2 ^ 51) * X \<le> r" "r \<le> (1 + 1 / 2 ^ 51) * X"
    by (simp_all add: X_def r_def)
  have w: "(0::rat) < of_int w" using assms by simp
  have wX: "of_int w * X = of_int (W * h)" using w by (simp add: X_def)
  have "(of_int (W * h) :: rat) < of_int (2 ^ 50)" using assms(4) by (simp only: of_int_less_iff)
  then have small: "(of_int (W * h) :: rat) / 2 ^ 51 < 1 / 2" by simp
  have "of_int w * ((1 - 1 / 2 ^ 51) * X) \<le> of_int w * r"
    using b(1) w by (intro mult_left_mono) simp_all
  then have lo: "of_int (W * h) - of_int (W * h) / 2 ^ 51 \<le> of_int w * r"
    using wX by (simp add: algebra_simps)
  have "of_int w * r \<le> of_int w * ((1 + 1 / 2 ^ 51) * X)"
    using b(2) w by (intro mult_left_mono) simp_all
  then have hi: "of_int w * r \<le> of_int (W * h) + of_int (W * h) / 2 ^ 51"
    using wX by (simp add: algebra_simps)
  from lo hi small show ?thesis by simp
qed

lemma float_product_floor:
  fixes W w h :: int
  assumes "0 < W" "0 < w" "0 < h" "W * h < 2 ^ 50"
  defines "r \<equiv> int_times_float W (fl (of_int h / of_int w))"
  defines "T \<equiv> py_int_of_float r"
  shows "(if w dvd W * h then T = (W * h) div w \<or> T = (W * h) div w - 1 else T = (W * h) div w)"
proof -
  define N where "N = W * h"
  define n where "n = N div w"
  define k where "k = N mod w"
  have N: "N = n * w + k" and k: "0 \<le> k" "k < w"
    using assms(2) by (simp_all add: n_def k_def)
  have Npos: "0 < N" using assms by (simp add: N_def)
  from float_product_near [OF assms(1-4)]
  have lo: "of_int (2 * N - 1) < 2 * of_int w * r" and hi: "2 * of_int w * r < of_int (2 * N + 1)"
    by (simp_all add: r_def N_def)
  have w2: "(0::rat) < 2 * of_int w" using assms by simp
  have below: "of_int z < r" if "2 * w * z \<le> 2 * N - 1" for z
  proof -
    have "(of_int (2 * w * z) :: rat) \<le> of_int (2 * N - 1)" using that by (simp only: of_int_le_iff)
    with lo have "2 * of_int w * of_int z < 2 * of_int w * r" by simp
    then show ?thesis using w2 by (simp only: mult_less_cancel_left_pos)
  qed
  have above: "r < of_int z" if "2 * N + 1 \<le> 2 * w * z" for z
  proof -
    have "(of_int (2 * N + 1) :: rat) \<le> of_int (2 * w * z)" using that by (simp only: of_int_le_iff)
    with hi have "2 * of_int w * r < 2 * of_int w * of_int z" by simp
    then show ?thesis using w2 by (simp only: mult_less_cancel_left_pos)
  qed
  have "0 < r" using below [of 0] Npos by simp
  then have T: "T = \<lfloor>r\<rfloor>" by (simp add: T_def py_int_of_float_def)
  have up: "r < of_int (n + 1)"
  proof (rule above)
    have "2 * N + 1 \<le> 2 * (n * w) + 2 * w" using N k by linarith
    then show "2 * N + 1 \<le> 2 * w * (n + 1)" by (simp add: algebra_simps)
  qed
  then have Tn: "T \<le> n" using T by (simp add: floor_less_iff [symmetric] del: of_int_add)
  show ?thesis
  proof (cases "w dvd W * h")
    case True
    then have "k = 0" by (simp add: k_def N_def)
    have "of_int (n - 1) < r"
    proof (rule below)
      have "2 * (n * w) - 2 * w \<le> 2 * N - 1" using N k assms(2) by linarith
      then show "2 * w * (n - 1) \<le> 2 * N - 1" by (simp add: algebra_simps)
    qed
    then have "n - 1 \<le> T" using T by (simp add: le_floor_iff del: of_int_diff)
    with Tn True show ?thesis by (auto simp: n_def N_def)
  next
    case False
    then have "k \<noteq> 0" by (simp add: k_def N_def dvd_eq_mod_eq_0)
    with k have k1: "1 \<le> k" by simp
    have "of_int n < r"
    proof (rule below)
      have "2 * (n * w) \<le> 2 * N - 1" using N k1 by linarith
      then show "2 * w * n \<le> 2 * N - 1" by (simp add: algebra_simps)
    qed
    then have "n \<le> T" using T by (simp add: le_floor_iff)
    with Tn False show ?thesis by (auto simp: n_def N_def)
  qed
qed

lemma target_height_floor:
  assumes "0 < W" "0 < w" "0 < h" "W * int h < 2 ^ 50"
  shows "\<exists>T. target_height W w h = Inr T \<and>
          (if int w dvd W * int h then T = (W * int h) div int w \<or> T = (W * int h) div int w - 1
           else T = (W * int h) div int w)"
  using float_product_floor [of W "int w" "int h"] assms
  by (auto simp: target_height_def int_truediv_def split: if_splits)

section \<open>The size of the output image\<close>

lemma pixelate_image_output:
  assumes o: "open_rgb w ip = Inr img0"
    and t: "target_height tw (iwidth (adjust L bf cf img0)) (iheight (adjust L bf cf img0)) = Inr th"
    and r: "1 \<le> tw" "1 \<le> th" "1 \<le> sc" "tw * sc < 2 ^ 31" "th * sc < 2 ^ 31"
    and m: "allocate_error L (nat tw) (nat th) = None"
      "allocate_error L (nat (tw * sc)) (nat (th * sc)) = None"
    and s: "save_error L op = None"
    and q: "\<And>img. \<exists>img' w'. quantize L w ps pf img = (Inr img', w')"
  shows "\<exists>w' out. pixelate_image L w ip op tw ps sc bf cf pf = (Inr (), w')
           \<and> picture_at w' op = Some out
           \<and> image_size out = (nat (tw * sc), nat (th * sc))"
proof -
  have "tw * 1 \<le> tw * sc" "th * 1 \<le> th * sc"
    using r by (intro mult_left_mono; simp)+
  then have "tw \<le> tw * sc" "th \<le> th * sc"
    by (simp_all only: mult_1_right)
  then have "tw < 2 ^ 31" "th < 2 ^ 31"
    using r(4,5) by linarith+
  moreover have "0 \<le> tw * sc" "0 \<le> th * sc"
    using r by simp_all
  then have "- 2147483648 \<le> tw * sc" "- 2147483648 \<le> th * sc"
    by linarith+
  ultimately have c: "c_int tw" "c_int th" "c_int (tw * sc)" "c_int (th * sc)"
    using r by (simp_all add: c_int_def)
  have p: "1 \<le> tw * sc" "1 \<le> th * sc"
    using \<open>tw \<le> tw * sc\<close> \<open>th \<le> th * sc\<close> r(1,2) by linarith+
  obtain img2 where r1: "resize_nearest L (tw, th) (adjust L bf cf img0) = Inr img2"
    using c r m by (simp add: resize_nearest_def)
  from q obtain img3 w' where q3: "quantize L w ps pf img2 = (Inr img3, w')" by blast
  obtain img4 where r2: "resize_nearest L (tw * sc, th * sc) img3 = Inr img4"
    and z: "image_size img4 = (nat (tw * sc), nat (th * sc))"
    using c p m by (simp add: resize_nearest_def image_size_def)
  have "pixelate_image L w ip op tw ps sc bf cf pf
      = (Inr (), w'\<lparr>files := (files w')(op \<mapsto> Picture img4)\<rparr>)"
    by (simp add: pixelate_image_def o t r1 q3 r2 s)
  with z show ?thesis by (simp add: picture_at_def)
qed

lemma pixelate_image_no_height:
  assumes o: "open_rgb w ip = Inr img0"
    and t: "target_height tw (iwidth (adjust L bf cf img0)) (iheight (adjust L bf cf img0)) = Inr th"
    and r: "c_int tw" "c_int th" "th < 1"
  shows "pixelate_image L w ip op tw ps sc bf cf pf = (Inl ValueError, w)"
proof -
  have "resize_nearest L (tw, th) (adjust L bf cf img0) = Inl ValueError"
    using r by (simp add: resize_nearest_def)
  then show ?thesis by (simp add: pixelate_image_def o t)
qed

lemma target_height_flat: "0 < w \<Longrightarrow> target_height W w 0 = Inr 0"
  by (simp add: target_height_def int_truediv_def int_times_float_def py_int_of_float_def fl_def)

text \<open>
  C6: when the call succeeds the output is \<open>target_width * pixel_scale\<close> wide and
  \<open>\<lfloor>p\<rfloor> * pixel_scale\<close> high, where \<open>p\<close> is the double-precision product of
  \<open>target_width\<close> and the double-precision aspect ratio: the product is truncated, not
  rounded. The call succeeds when the image has a width, \<open>p\<close> is at least 1, both sizes fit
  a C int, the library finds the storage for the two resized images, the quantize step
  does not raise and the output path can be written.
\<close>

theorem output_size_floor_of_double_product:
  assumes "open_rgb w ip = Inr img0"
    and "img1 = adjust L bf cf img0"
    and "0 < iwidth img1"
    and "p = int_times_float tw (fl (of_int (int (iheight img1)) / of_int (int (iwidth img1))))"
    and "1 \<le> tw" "1 \<le> sc" "1 \<le> p" "tw * sc < 2 ^ 31" "\<lfloor>p\<rfloor> * sc < 2 ^ 31"
    and "allocate_error L (nat tw) (nat \<lfloor>p\<rfloor>) = None"
    and "allocate_error L (nat (tw * sc)) (nat (\<lfloor>p\<rfloor> * sc)) = None"
    and "save_error L op = None"
    and "\<And>img. \<exists>img' w'. quantize L w ps pf img = (Inr img', w')"
  shows "\<exists>w' out. pixelate_image L w ip op tw ps sc bf cf pf = (Inr (), w')
           \<and> picture_at w' op = Some out
           \<and> image_size out = (nat (tw * sc), nat (\<lfloor>p\<rfloor> * sc))"
proof -
  have t: "target_height tw (iwidth (adjust L bf cf img0)) (iheight (adjust L bf cf img0)) = Inr \<lfloor>p\<rfloor>"
    using assms(2,3,4,7) by (simp add: target_height_def int_truediv_def py_int_of_float_def)
  have "1 \<le> \<lfloor>p\<rfloor>" using assms(7) by (simp add: le_floor_iff)
  from pixelate_image_output [OF assms(1) t assms(5) this assms(6,8,9,10,11,12,13)]
  show ?thesis .
qed

theorem output_size_floor_of_double_product_witness:
  "\<exists>w' out. pixelate_image sample_imaging w_4x3 ''in.png'' ''out.png'' 5 4 2 1 1 None = (Inr (), w')
      \<and> picture_at w' ''out.png'' = Some out \<and> image_size out = (10, 6)"
proof -
  have o: "open_rgb w_4x3 ''in.png'' = Inr (solid 4 3 (10, 20, 30))"
    by (simp add: open_rgb_def w_4x3_def world_of_def)
  have a: "solid 4 3 (10, 20, 30) = adjust sample_imaging 1 1 (solid 4 3 (10, 20, 30))"
    by (simp add: adjust_def)
  have w: "0 < iwidth (solid 4 3 (10, 20, 30))" by (simp add: solid_def)
  have p: "15 / 4 = int_times_float 5 (fl (of_int (int (iheight (solid 4 3 (10, 20, 30))))
               / of_int (int (iwidth (solid 4 3 (10, 20, 30))))))"
    by code_simp
  have q: "\<exists>img' w'. quantize sample_imaging w_4x3 4 None img = (Inr img', w')" for img
    by (simp add: quantize_def sample_imaging_def)
  have f: "\<lfloor>15 / 4 :: rat\<rfloor> = 3" by code_simp
  have m: "allocate_error sample_imaging (nat 5) (nat \<lfloor>15 / 4 :: rat\<rfloor>) = None"
    "allocate_error sample_imaging (nat (5 * 2)) (nat (\<lfloor>15 / 4 :: rat\<rfloor> * 2)) = None"
    "save_error sample_imaging ''out.png'' = None"
    unfolding f by (simp_all add: sample_imaging_def)
  from output_size_floor_of_double_product [OF o a w p _ _ _ _ _ m q] f
  show ?thesis by simp
qed

text \<open>
  C6 with \<open>round\<close> does not hold: a 4 by 3 image at \<open>target_width = 5\<close> and \<open>pixel_scale = 2\<close>
  comes out 10 by 6, and rounding \<open>5 * 0.75\<close> gives the height 8.
\<close>

theorem output_size_round_counterexample:
  "fst (pixelate_image sample_imaging w_4x3 ''in.png'' ''out.png'' 5 4 2 1 1 None) = Inr ()
   \<and> map_option image_size
        (picture_at (snd (pixelate_image sample_imaging w_4x3 ''in.png'' ''out.png'' 5 4 2 1 1 None))
           ''out.png'') = Some (10, 6)
   \<and> (nat (5 * 2), nat (round (5 * (3 / 4 :: rat)) * 2)) = (10, 8)
   \<and> int_truediv 3 4 = Inr (3 / 4)
   \<and> (nat (5 * 2), nat (round (int_times_float 5 (3 / 4)) * 2)) = (10, 8)"
  by code_simp

text \<open>
  C1: for an image \<open>w\<close> wide and \<open>h\<close> high, with \<open>W * h < 2 ^ 50\<close>, the target height \<open>T\<close> that
  the code computes is the exact floor of \<open>W * h / w\<close> when \<open>w\<close> does not divide \<open>W * h\<close>, and
  the exact quotient or one less when it does: the two roundings of the floating-point
  computation can land just below an integer. When \<open>T\<close> is at least 1, both output sizes fit
  a C int, the library finds the storage for the two resized images, the quantize step
  does not raise and the output path can be written, the call succeeds and the output is
  \<open>W * s\<close> wide and \<open>T * s\<close> high. When \<open>T\<close> is below 1 the call raises \<open>ValueError\<close> and writes
  nothing.
\<close>

theorem output_size_exact_floor:
  assumes "open_rgb w ip = Inr img0"
    and "img1 = adjust L bf cf img0"
    and "ow = int (iwidth img1)" "oh = int (iheight img1)"
    and "0 < ow" "1 \<le> tw" "1 \<le> sc"
    and "tw * oh < 2 ^ 50"
  shows "\<exists>T. target_height tw (iwidth img1) (iheight img1) = Inr T
           \<and> (if ow dvd tw * oh then T = (tw * oh) div ow \<or> T = (tw * oh) div ow - 1
               else T = (tw * oh) div ow)
           \<and> (1 \<le> T \<and> tw * sc < 2 ^ 31 \<and> T * sc < 2 ^ 31
               \<and> allocate_error L (nat tw) (nat T) = None
               \<and> allocate_error L (nat (tw * sc)) (nat (T * sc)) = None
               \<and> save_error L op = None
               \<and> (\<forall>img. \<exists>img' w'. quantize L w ps pf img = (Inr img', w'))
               \<longrightarrow> (\<exists>w' out. pixelate_image L w ip op tw ps sc bf cf pf = (Inr (), w')
                      \<and> picture_at w' op = Some out
                      \<and> image_size out = (nat (tw * sc), nat (T * sc))))
           \<and> (T < 1 \<and> tw < 2 ^ 31
               \<longrightarrow> pixelate_image L w ip op tw ps sc bf cf pf = (Inl ValueError, w))"
proof -
  have w0: "0 < iwidth img1" using assms(3,5) by simp
  have tw0: "0 < tw" using assms(6) by simp
  have "\<exists>T. target_height tw (iwidth img1) (iheight img1) = Inr T
      \<and> (if ow dvd tw * oh then T = (tw * oh) div ow \<or> T = (tw * oh) div ow - 1
          else T = (tw * oh) div ow)"
  proof (cases "iheight img1 = 0")
    case True
    with target_height_flat [OF w0] assms(4) show ?thesis by simp
  next
    case False
    then have "0 < iheight img1" by simp
    from target_height_floor [OF tw0 w0 this] assms(3,4,8) show ?thesis by auto
  qed
  then obtain T where t: "target_height tw (iwidth img1) (iheight img1) = Inr T"
    and T: "if ow dvd tw * oh then T = (tw * oh) div ow \<or> T = (tw * oh) div ow - 1
            else T = (tw * oh) div ow"
    by blast
  have good: "\<exists>w' out. pixelate_image L w ip op tw ps sc bf cf pf = (Inr (), w')
      \<and> picture_at w' op = Some out \<and> image_size out = (nat (tw * sc), nat (T * sc))"
    if h: "1 \<le> T" "tw * sc < 2 ^ 31" "T * sc < 2 ^ 31"
      "allocate_error L (nat tw) (nat T) = None"
      "allocate_error L (nat (tw * sc)) (nat (T * sc)) = None"
      "save_error L op = None"
      "\<forall>img. \<exists>img' w'. quantize L w ps pf img = (Inr img', w')"
  proof -
    from h(7) have q: "\<exists>img' w'. quantize L w ps pf img = (Inr img', w')" for img by blast
    from pixelate_image_output [OF assms(1) t [unfolded assms(2)] assms(6) h(1) assms(7) h(2-6) q]
    show ?thesis .
  qed
  have bad: "pixelate_image L w ip op tw ps sc bf cf pf = (Inl ValueError, w)"
    if h: "T < 1" "tw < 2 ^ 31"
  proof -
    have "0 \<le> tw * oh" using assms(4,6) by simp
    then have "0 \<le> (tw * oh) div ow" using assms(5) by (simp add: pos_imp_zdiv_nonneg_iff)
    with T have "- 1 \<le> T" by (auto split: if_splits)
    with h(1) have c: "c_int T" by (simp add: c_int_def)
    have "c_int tw" using assms(6) h(2) by (simp add: c_int_def)
    from pixelate_image_no_height [OF assms(1) t [unfolded assms(2)] this c h(1)]
    show ?thesis .
  qed
  from good have g: "1 \<le> T \<and> tw * sc < 2 ^ 31 \<and> T * sc < 2 ^ 31
      \<and> allocate_error L (nat tw) (nat T) = None
      \<and> allocate_error L (nat (tw * sc)) (nat (T * sc)) = None
      \<and> save_error L op = None
      \<and> (\<forall>img. \<exists>img' w'. quantize L w ps pf img = (Inr img', w'))
      \<longrightarrow> (\<exists>w' out. pixelate_image L w ip op tw ps sc bf cf pf = (Inr (), w')
             \<and> picture_at w' op = Some out
             \<and> image_size out = (nat (tw * sc), nat (T * sc)))"
    by blast
  from bad have b: "T < 1 \<and> tw < 2 ^ 31
      \<longrightarrow> pixelate_image L w ip op tw ps sc bf cf pf = (Inl ValueError, w)"
    by blast
  from t T g b show ?thesis
    by - (rule exI [of _ T], intro conjI, assumption+)
qed

theorem output_size_exact_floor_witness:
  "(\<exists>w' out. pixelate_image sample_imaging w_4x3 ''in.png'' ''out.png'' 2 4 2 1 1 None = (Inr (), w')
      \<and> picture_at w' ''out.png'' = Some out \<and> image_size out = (4, 2))
   \<and> pixelate_image sample_imaging w_4x3 ''in.png'' ''out.png'' 1 4 2 1 1 None
       = (Inl ValueError, w_4x3)"
proof -
  have o: "open_rgb w_4x3 ''in.png'' = Inr (solid 4 3 (10, 20, 30))"
    by (simp add: open_rgb_def w_4x3_def world_of_def)
  have a: "solid 4 3 (10, 20, 30) = adjust sample_imaging 1 1 (solid 4 3 (10, 20, 30))"
    by (simp add: adjust_def)
  have w: "4 = int (iwidth (solid 4 3 (10, 20, 30)))" and h: "3 = int (iheight (solid 4 3 (10, 20, 30)))"
    by (simp_all add: solid_def)
  have q: "\<forall>img. \<exists>img' w'. quantize sample_imaging w_4x3 4 None img = (Inr img', w')"
    by (simp add: quantize_def sample_imaging_def)
  have t2: "target_height 2 (iwidth (solid 4 3 (10, 20, 30))) (iheight (solid 4 3 (10, 20, 30)))
      = Inr 1"
    by code_simp
  have t1: "target_height 1 (iwidth (solid 4 3 (10, 20, 30))) (iheight (solid 4 3 (10, 20, 30)))
      = Inr 0"
    by code_simp
  have m: "allocate_error sample_imaging (nat 2) (nat 1) = None"
    "allocate_error sample_imaging (nat (2 * 2)) (nat (1 * 2)) = None"
    "save_error sample_imaging ''out.png'' = None"
    by (simp_all add: sample_imaging_def)
  from output_size_exact_floor [OF o a w h, of 2 2 "''out.png''" 4 None] t2 m q
  have 1: "\<exists>w' out. pixelate_image sample_imaging w_4x3 ''in.png'' ''out.png'' 2 4 2 1 1 None
      = (Inr (), w') \<and> picture_at w' ''out.png'' = Some out \<and> image_size out = (4, 2)"
    by simp
  from output_size_exact_floor [OF o a w h, of 1 2 "''out.png''" 4 None] t1
  have 2: "pixelate_image sample_imaging w_4x3 ''in.png'' ''out.png'' 1 4 2 1 1 None
      = (Inl ValueError, w_4x3)"
    by simp
  from 1 2 show ?thesis by blast
qed

text \<open>
  C1 with the exact floor for every image does not hold: an 11 by 15 image at
  \<open>target_width = 11\<close> and \<open>pixel_scale = 2\<close> comes out 22 by 28, since \<open>11 * (15 / 11)\<close> is
  \<open>14.999999999999998\<close> in double precision; the exact floor gives the height 30.
\<close>

theorem output_size_exact_floor_counterexample:
  "fst (pixelate_image sample_imaging w_11x15 ''in.png'' ''out.png'' 11 4 2 1 1 None) = Inr ()
   \<and> map_option image_size
        (picture_at (snd (pixelate_image sample_imaging w_11x15 ''in.png'' ''out.png'' 11 4 2 1 1 None))
           ''out.png'') = Some (22, 28)
   \<and> (nat (11 * 2), nat (\<lfloor>11 * 15 / 11 :: rat\<rfloor> * 2)) = (22, 30)"
  by code_simp

section \<open>Frame file names\<close>

lemma digit_char_code: "d < 10 \<Longrightarrow> (of_char (digit_char d) :: nat) = 48 + d"
  by (simp add: digit_char_def)

lemma decimal_digits: "\<forall>c\<in>set (decimal n). is_digit c"
proof (induction n rule: decimal.induct)
  case (1 n)
  show ?case
  proof (cases "n < 10")
    case True
    then show ?thesis
      by (simp add: decimal.simps [of n] is_digit_def digit_char_code)
  next
    case False
    with 1 have "\<forall>c\<in>set (decimal (n div 10)). is_digit c" by simp
    moreover have "is_digit (digit_char (n mod 10))"
      by (simp add: is_digit_def digit_char_code)
    ultimately show ?thesis using False
      by (simp add: decimal.simps [of n])
  qed
qed

lemma zero_digit: "is_digit (CHR ''0'')"
  by (simp add: is_digit_def)

lemma format_05d_digits: "\<forall>c\<in>set (format_05d n). is_digit c"
  using decimal_digits [of n] zero_digit by (auto simp: format_05d_def)

lemma decimal_value_append:
  "decimal_value (s @ [c]) = 10 * decimal_value s + (of_char c - 48)"
  by (simp add: decimal_value_def)

lemma decimal_value_decimal: "decimal_value (decimal n) = n"
proof (induction n rule: decimal.induct)
  case (1 n)
  show ?case
  proof (cases "n < 10")
    case True
    then show ?thesis
      by (simp add: decimal.simps [of n] decimal_value_def digit_char_code)
  next
    case False
    with 1 have "decimal_value (decimal (n div 10)) = n div 10" by simp
    then show ?thesis using False
      by (simp add: decimal.simps [of n] decimal_value_append digit_char_code)
  qed
qed

lemma foldl_zeros:
  "foldl (\<lambda>a c. 10 * a + (of_char c - 48)) (0::nat) (replicate k (CHR ''0'') @ s)
     = foldl (\<lambda>a c. 10 * a + (of_char c - 48)) 0 s"
  by (induction k) simp_all

lemma decimal_value_format: "decimal_value (format_05d n) = n"
  using decimal_value_decimal [of n]
  by (simp add: format_05d_def decimal_value_def foldl_zeros del: foldl_append)

lemma format_05d_inj: "format_05d i = format_05d j \<Longrightarrow> i = j"
  by (metis decimal_value_format)

lemma takeWhile_digits:
  assumes "\<forall>c\<in>set xs. is_digit c" "\<not> is_digit y"
  shows "takeWhile is_digit (xs @ y # ys) = xs"
  using assms by (simp add: takeWhile_append2)

lemma path_join_frame: "path_join d (CHR ''f'' # x) = dir_prefix d @ CHR ''f'' # x"
  by (simp add: path_join_def dir_prefix_def)

lemma output_path_inj: "output_image_path tmp i = output_image_path tmp j \<Longrightarrow> i = j"
  by (simp add: output_image_path_def path_join_frame format_05d_inj)

lemma output_path_not_temp: "output_image_path tmp i \<noteq> temp_image_path tmp j"
proof
  assume "output_image_path tmp i = temp_image_path tmp j"
  then have e: "format_05d i @ CHR ''_'' # ''pixelated.png'' = format_05d j @ CHR ''.'' # ''png''"
    by (simp add: output_image_path_def temp_image_path_def path_join_frame)
  have "takeWhile is_digit (format_05d i @ CHR ''_'' # ''pixelated.png'') = format_05d i"
    by (rule takeWhile_digits) (rule format_05d_digits, simp add: is_digit_def)
  moreover have "takeWhile is_digit (format_05d j @ CHR ''.'' # ''png'') = format_05d j"
    by (rule takeWhile_digits) (rule format_05d_digits, simp add: is_digit_def)
  ultimately have "format_05d i = format_05d j" using e by simp
  with e show False by simp
qed

lemma output_path_inside: "inside tmp (output_image_path tmp i)"
  by (simp add: inside_def output_image_path_def path_join_frame)

section \<open>The frame loop\<close>

lemma pixelate_image_files:
  assumes "pixelate_image L w ip op tw ps sc bf cf pf = (r, w')"
  shows "p \<noteq> op \<Longrightarrow> files w' p = files w p"
    and "r = Inr () \<Longrightarrow> \<exists>out. picture_at w' op = Some out"
    and "r \<noteq> Inr () \<Longrightarrow> files w' = files w"
  using assms
  by (auto simp: pixelate_image_def Let_def picture_at_def
      split: sum.splits prod.splits option.splits dest: quantize_fields)

lemma frame_loop_files:
  "frame_loop L tmp tw ps sc bf cf pf frames n0 w = (r, w') \<Longrightarrow> files w' p \<noteq> files w p \<Longrightarrow>
     \<exists>i<length frames. p = temp_image_path tmp (n0 + i) \<or> p = output_image_path tmp (n0 + i)"
proof (induction frames arbitrary: n0 w)
  case Nil
  then show ?case by simp
next
  case (Cons f frames)
  let ?w1 = "imwrite w (temp_image_path tmp n0) (swap_channels f)"
  obtain r1 w2 where p: "pixelate_image L ?w1 (temp_image_path tmp n0) (output_image_path tmp n0)
      tw ps sc bf cf pf = (r1, w2)"
    by (cases "pixelate_image L ?w1 (temp_image_path tmp n0) (output_image_path tmp n0)
      tw ps sc bf cf pf")
  show ?case
  proof (cases "p = temp_image_path tmp n0 \<or> p = output_image_path tmp n0")
    case True
    then have "p = temp_image_path tmp (n0 + 0) \<or> p = output_image_path tmp (n0 + 0)" by simp
    then show ?thesis by (intro exI [of _ 0]) simp
  next
    case False
    with pixelate_image_files(1) [OF p, of p] have same: "files w2 p = files w p"
      by (simp add: imwrite_def)
    show ?thesis
    proof (cases r1)
      case (Inl e)
      with Cons.prems p same show ?thesis by (simp add: Let_def)
    next
      case (Inr u)
      with Cons.prems(1) p
      have l: "frame_loop L tmp tw ps sc bf cf pf frames (n0 + 1) w2 = (r, w')"
        by (simp add: Let_def)
      from Cons.prems(2) same have "files w' p \<noteq> files w2 p" by simp
      from Cons.IH [OF l this] obtain i where "i < length frames"
        "p = temp_image_path tmp (n0 + 1 + i) \<or> p = output_image_path tmp (n0 + 1 + i)"
        by blast
      then have "Suc i < length (f # frames)"
        "p = temp_image_path tmp (n0 + Suc i) \<or> p = output_image_path tmp (n0 + Suc i)"
        by simp_all
      then show ?thesis by blast
    qed
  qed
qed

lemma frame_loop_outputs:
  "frame_loop L tmp tw ps sc bf cf pf frames n0 w = (Inr n, w') \<Longrightarrow>
     n = n0 + length frames \<and>
     (\<forall>i<length frames. \<exists>wi wi' out.
        picture_at wi (temp_image_path tmp (n0 + i)) = Some (swap_channels (swap_channels (frames ! i)))
        \<and> pixelate_image L wi (temp_image_path tmp (n0 + i)) (output_image_path tmp (n0 + i))
             tw ps sc bf cf pf = (Inr (), wi')
        \<and> picture_at wi' (output_image_path tmp (n0 + i)) = Some out
        \<and> picture_at w' (output_image_path tmp (n0 + i)) = Some out)"
proof (induction frames arbitrary: n0 w)
  case Nil
  then show ?case by simp
next
  case (Cons f frames)
  let ?w1 = "imwrite w (temp_image_path tmp n0) (swap_channels f)"
  obtain r1 w2 where p: "pixelate_image L ?w1 (temp_image_path tmp n0) (output_image_path tmp n0)
      tw ps sc bf cf pf = (r1, w2)"
    by (cases "pixelate_image L ?w1 (temp_image_path tmp n0) (output_image_path tmp n0)
      tw ps sc bf cf pf")
  from Cons.prems p have r1: "r1 = Inr ()"
    by (cases r1) (simp_all add: Let_def)
  with Cons.prems p have l: "frame_loop L tmp tw ps sc bf cf pf frames (n0 + 1) w2 = (Inr n, w')"
    by (simp add: Let_def)
  from Cons.IH [OF l] have n: "n = n0 + 1 + length frames"
    and rest: "\<forall>i<length frames. \<exists>wi wi' out.
        picture_at wi (temp_image_path tmp (n0 + 1 + i)) = Some (swap_channels (swap_channels (frames ! i)))
        \<and> pixelate_image L wi (temp_image_path tmp (n0 + 1 + i)) (output_image_path tmp (n0 + 1 + i))
             tw ps sc bf cf pf = (Inr (), wi')
        \<and> picture_at wi' (output_image_path tmp (n0 + 1 + i)) = Some out
        \<and> picture_at w' (output_image_path tmp (n0 + 1 + i)) = Some out"
    by simp_all
  from pixelate_image_files(2) [OF p r1] obtain out
    where out: "picture_at w2 (output_image_path tmp n0) = Some out" ..
  have kept: "files w' (output_image_path tmp n0) = files w2 (output_image_path tmp n0)"
  proof (rule ccontr)
    assume "files w' (output_image_path tmp n0) \<noteq> files w2 (output_image_path tmp n0)"
    from frame_loop_files [OF l this] obtain i where
      "output_image_path tmp n0 = temp_image_path tmp (n0 + 1 + i)
       \<or> output_image_path tmp n0 = output_image_path tmp (n0 + 1 + i)"
      by blast
    then show False
      using output_path_not_temp [of tmp n0 "n0 + 1 + i"] output_path_inj [of tmp n0 "n0 + 1 + i"]
      by auto
  qed
  have first: "picture_at ?w1 (temp_image_path tmp n0) = Some (swap_channels (swap_channels f))"
    by (simp add: picture_at_def imwrite_def)
  have here: "picture_at w' (output_image_path tmp n0) = Some out"
    using out kept by (simp add: picture_at_def)
  have "\<exists>wi wi' out.
        picture_at wi (temp_image_path tmp (n0 + i)) = Some (swap_channels (swap_channels ((f # frames) ! i)))
        \<and> pixelate_image L wi (temp_image_path tmp (n0 + i)) (output_image_path tmp (n0 + i))
             tw ps sc bf cf pf = (Inr (), wi')
        \<and> picture_at wi' (output_image_path tmp (n0 + i)) = Some out
        \<and> picture_at w' (output_image_path tmp (n0 + i)) = Some out"
    if "i < length (f # frames)" for i
  proof (cases i)
    case 0
    with first p r1 out here show ?thesis by auto
  next
    case (Suc j)
    with that have "j < length frames" by simp
    with rest Suc show ?thesis by simp
  qed
  with n show ?case by simp
qed

text \<open>
  C8: when \<open>pixelate_video\<close> reaches the encoder, the file system it hands over holds, for
  every decoded frame \<open>i\<close> counted from 0, the picture that \<open>pixelate_image\<close> wrote for the
  temporary image of frame \<open>i\<close>, under the name with the index \<open>i\<close> padded with zeros to
  five digits. Different indices give different names, no name of a pixelated frame is the
  name of a temporary image, and the loop touched no other path: one pixelated image per
  decoded frame, in decode order. (The temporary image is the frame with red and blue
  exchanged, since \<open>cv2.imwrite\<close> is given the array after its conversion to RGB.)
\<close>

theorem one_output_per_decoded_frame:
  assumes "pixelate_video L enc tmp w ip op tw ps sc bf cf pf fps = (r, w')"
    and "encoder_runs w w' = [cmd]"
  shows "\<exists>w5.
       r = (case enc cmd (files w5) of Inl e \<Rightarrow> Inl e | Inr fs \<Rightarrow> Inr ())
     \<and> input_pattern cmd = path_join tmp ''frame_%05d_pixelated.png''
     \<and> (\<forall>i<length (decoded_frames w ip). \<exists>wi wi' out.
          picture_at wi (temp_image_path tmp i)
            = Some (swap_channels (swap_channels (decoded_frames w ip ! i)))
          \<and> pixelate_image L wi (temp_image_path tmp i) (output_image_path tmp i)
               tw ps sc bf cf pf = (Inr (), wi')
          \<and> picture_at wi' (output_image_path tmp i) = Some out
          \<and> picture_at w5 (output_image_path tmp i) = Some out)
     \<and> (\<forall>p. files w5 p \<noteq> files w p \<longrightarrow>
          (\<exists>i<length (decoded_frames w ip).
             p = temp_image_path tmp i \<or> p = output_image_path tmp i))
     \<and> (\<forall>i j. output_image_path tmp i = output_image_path tmp j \<longrightarrow> i = j)
     \<and> (\<forall>i j. output_image_path tmp i \<noteq> temp_image_path tmp j)
     \<and> (\<forall>i. decimal_value (format_05d i) = i \<and> 5 \<le> length (format_05d i))"
proof -
  let ?fps = "min fps (native_fps w ip)"
  have m: "(if native_fps w ip < fps then native_fps w ip else fps) = ?fps"
    by (simp add: min_def)
  let ?w4 = "w\<lparr>open_captures := open_captures w @ [ip],
               stdout := stdout w @ [DetectedFps (native_fps w ip) ?fps],
               temp_dirs := temp_dirs w @ [tmp],
               open_captures := open_captures w @ [ip] @ [ip]\<rparr>"
  let ?cmd = "\<lparr>framerate = ?fps,
                input_pattern = path_join tmp ''frame_%05d_pixelated.png'',
                vcodec = ''libx264'', pix_fmt = ''yuv420p'', out_path = op\<rparr>"
  have d: "decoded_frames ?w4 ip = decoded_frames w ip"
    by (simp add: decoded_frames_def)
  obtain r5 w5 where loop: "frame_loop L tmp tw ps sc bf cf pf (decoded_frames w ip) 0 ?w4 = (r5, w5)"
    by (cases "frame_loop L tmp tw ps sc bf cf pf (decoded_frames w ip) 0 ?w4")
  from frame_loop_fields [OF loop] have f: "subprocesses w5 = subprocesses w" by simp
  show ?thesis
  proof (cases r5)
    case (Inl e)
    with assms(1) loop d have "w' = cleanup tmp w5"
      by (simp add: pixelate_video_def find_framerate_def Let_def m)
    with f assms(2) show ?thesis by (simp add: encoder_runs_def cleanup_fields)
  next
    case (Inr n)
    let ?w7 = "(release ip w5)\<lparr>subprocesses := subprocesses (release ip w5) @ [?cmd]\<rparr>"
    have f7: "files ?w7 = files w5" by (simp add: release_def)
    from Inr assms(1) loop d
    have res: "r = (case enc ?cmd (files ?w7) of Inl e \<Rightarrow> Inl e | Inr fs \<Rightarrow> Inr ())"
      and w': "subprocesses w' = subprocesses ?w7"
      by (cases "enc ?cmd (files ?w7)";
          auto simp: pixelate_video_def find_framerate_def Let_def cleanup_fields m)+
    from w' f assms(2) have c: "cmd = ?cmd"
      by (simp add: encoder_runs_def release_def)
    have "5 \<le> length (format_05d i)" for i by (simp add: format_05d_def)
    with frame_loop_outputs [OF loop [unfolded Inr]] frame_loop_files [OF loop]
      output_path_inj output_path_not_temp decimal_value_format res c f7
    show ?thesis by (intro exI [of _ w5]) (simp add: c)
  qed
qed

theorem one_output_per_decoded_frame_witness:
  "encoder_runs w_two_frames (snd (pixelate_video sample_imaging sample_encoder ''/tmp/t''
        w_two_frames ''clip.mp4'' ''out.mp4'' 2 4 3 1 1 None 30))
     = [\<lparr>framerate = 24, input_pattern = ''/tmp/t/frame_%05d_pixelated.png'',
         vcodec = ''libx264'', pix_fmt = ''yuv420p'', out_path = ''out.mp4''\<rparr>]
   \<and> length (decoded_frames w_two_frames ''clip.mp4'') = 2
   \<and> output_image_path ''/tmp/t'' 0 = ''/tmp/t/frame_00000_pixelated.png''
   \<and> output_image_path ''/tmp/t'' 1 = ''/tmp/t/frame_00001_pixelated.png''
   \<and> (\<exists>w5 out0 out1.
          picture_at w5 ''/tmp/t/frame_00000_pixelated.png'' = Some out0
        \<and> picture_at w5 ''/tmp/t/frame_00001_pixelated.png'' = Some out1)"
proof -
  let ?frames = "decoded_frames w_two_frames ''clip.mp4''"
  let ?run = "pixelate_video sample_imaging sample_encoder ''/tmp/t''
        w_two_frames ''clip.mp4'' ''out.mp4'' 2 4 3 1 1 None 30"
  let ?cmd = "\<lparr>framerate = 24, input_pattern = ''/tmp/t/frame_%05d_pixelated.png'',
         vcodec = ''libx264'', pix_fmt = ''yuv420p'', out_path = ''out.mp4''\<rparr>"
  have e: "encoder_runs w_two_frames (snd ?run) = [?cmd]" by code_simp
  have n: "length ?frames = 2" by code_simp
  have p0: "output_image_path ''/tmp/t'' 0 = ''/tmp/t/frame_00000_pixelated.png''" by code_simp
  have p1: "output_image_path ''/tmp/t'' 1 = ''/tmp/t/frame_00001_pixelated.png''" by code_simp
  have "?run = (fst ?run, snd ?run)" by simp
  from one_output_per_decoded_frame [OF this e]
  obtain w5 where "\<forall>i<length ?frames. \<exists>out. picture_at w5 (output_image_path ''/tmp/t'' i) = Some out"
    by blast
  with n have "\<exists>out. picture_at w5 (output_image_path ''/tmp/t'' 0) = Some out"
    "\<exists>out. picture_at w5 (output_image_path ''/tmp/t'' 1) = Some out"
    by simp_all
  with e n p0 p1 show ?thesis by (simp only: ) blast
qed

end
